theory Spec2Isabelle
  imports Main
begin

section \<open>Python values and list access\<close>

text \<open>
  The program is \<^verbatim>\<open>fast_response_k_server(n, k, w)\<close> of \<^verbatim>\<open>Fastkserver.py\<close> (and its
  copy in the second source file). It raises no exception of its own; the only failure
  it can run into is Python's IndexError on a list access.
\<close>

datatype error = IndexError

text \<open>
  A cell of the \<^verbatim>\<open>DP\<close> table holds either a Python int or \<^verbatim>\<open>math.inf\<close>. The program
  only ever adds an int to a cell and compares two cells with \<^verbatim>\<open><\<close>.
  (Adding an int beyond the float range to \<^verbatim>\<open>inf\<close> would raise OverflowError in Python;
  lemma \<open>dp_cell_int\<close> below shows that the program never adds anything to
  \<^verbatim>\<open>inf\<close>: every cell it reads in the recurrence is an int.)
\<close>

datatype cell = IntV int | InfV

fun cell_add :: "cell \<Rightarrow> int \<Rightarrow> cell" where
  "cell_add (IntV a) c = IntV (a + c)"
| "cell_add InfV c = InfV"

fun cell_less :: "cell \<Rightarrow> cell \<Rightarrow> bool" where
  "cell_less (IntV a) (IntV b) = (a < b)"
| "cell_less (IntV a) InfV = True"
| "cell_less InfV b = False"

fun cell_le :: "cell \<Rightarrow> cell \<Rightarrow> bool" where
  "cell_le (IntV a) (IntV b) = (a \<le> b)"
| "cell_le a InfV = True"
| "cell_le InfV (IntV b) = False"

text \<open>Python's \<^verbatim>\<open>xs[i]\<close>: a negative index counts from the end, anything else out of
  range raises IndexError.\<close>

definition py_get :: "'a list \<Rightarrow> int \<Rightarrow> error + 'a" where
  "py_get xs i =
     (let len = int (length xs); p = (if i < 0 then len + i else i)
      in if 0 \<le> p \<and> p < len then Inr (xs ! nat p) else Inl IndexError)"

definition bindE :: "error + 'a \<Rightarrow> ('a \<Rightarrow> error + 'b) \<Rightarrow> error + 'b" where
  "bindE r f = (case r of Inl e \<Rightarrow> Inl e | Inr x \<Rightarrow> f x)"

text \<open>\<^verbatim>\<open>tab[i][j]\<close> read with Python's indexing at both levels.\<close>

definition py_get2 :: "'a list list \<Rightarrow> int \<Rightarrow> int \<Rightarrow> error + 'a" where
  "py_get2 tab i j = bindE (py_get tab i) (\<lambda>row. py_get row j)"

text \<open>\<^verbatim>\<open>tab[i][j] = v\<close> on a table whose rows are distinct list objects. It is used
  only at indices inside the allocated table, where the list update is the assignment.\<close>

definition upd2 :: "'a list list \<Rightarrow> nat \<Rightarrow> nat \<Rightarrow> 'a \<Rightarrow> 'a list list" where
  "upd2 tab i j v = tab[i := (tab ! i)[j := v]]"

text \<open>A \<^verbatim>\<open>for\<close> loop whose body may raise: the first exception ends the loop.\<close>

fun for_each :: "('a \<Rightarrow> 's \<Rightarrow> error + 's) \<Rightarrow> 'a list \<Rightarrow> 's \<Rightarrow> error + 's" where
  "for_each body [] s = Inr s"
| "for_each body (x # xs) s =
     (case body x s of Inl e \<Rightarrow> Inl e | Inr s' \<Rightarrow> for_each body xs s')"

section \<open>Weighted median\<close>

text \<open>
  \<^verbatim>\<open>find_weighted_median(i, j, W)\<close>. Its only caller passes \<open>1 \<le> i \<le> j \<le> n\<close> and the
  prefix array of length \<open>n + 1\<close>, so the indices are naturals inside \<open>W\<close>.
  The scan with \<^verbatim>\<open>break\<close> is \<open>find\<close> on the range; \<^verbatim>\<open>m = i\<close> is the value when
  the scan finds nothing. Python's \<^verbatim>\<open>//\<close> is floor division, as \<open>div\<close> on \<open>int\<close>.
\<close>

definition find_weighted_median :: "nat \<Rightarrow> nat \<Rightarrow> int list \<Rightarrow> nat" where
  "find_weighted_median i j W =
     (let totalW = W ! j - W ! (i - 1);
          target = W ! (i - 1) + (totalW + 1) div 2
      in case find (\<lambda>pos. W ! pos \<ge> target) [i..<j + 1] of
           None \<Rightarrow> i
         | Some pos \<Rightarrow> pos)"

section \<open>Stage 1: prefix sums\<close>

text \<open>The lists the first loop works on: the caller's \<^verbatim>\<open>w\<close> and the two fresh lists
  \<^verbatim>\<open>W\<close> and \<^verbatim>\<open>XW\<close>.\<close>

record prefix_state =
  ps_w :: "int list"
  ps_W :: "int list"
  ps_XW :: "int list"

text \<open>The loop body: \<^verbatim>\<open>W[i] = W[i-1] + w[i]; XW[i] = XW[i-1] + i*w[i]\<close>. The read
  \<^verbatim>\<open>w[i]\<close> raises IndexError when the caller's list is too short.\<close>

definition prefix_body :: "nat \<Rightarrow> prefix_state \<Rightarrow> error + prefix_state" where
  "prefix_body i s =
     (if i < length (ps_w s) then
        (let s1 = s\<lparr>ps_W := (ps_W s)[i := ps_W s ! (i - 1) + ps_w s ! i]\<rparr>
         in Inr (s1\<lparr>ps_XW := (ps_XW s1)[i := ps_XW s1 ! (i - 1) + int i * ps_w s1 ! i]\<rparr>))
      else Inl IndexError)"

definition prefix_sums :: "nat \<Rightarrow> int list \<Rightarrow> error + prefix_state" where
  "prefix_sums n w =
     for_each prefix_body [1..<n + 1]
       \<lparr>ps_w = w, ps_W = replicate (n + 1) 0, ps_XW = replicate (n + 1) 0\<rparr>"

section \<open>Stage 2: interval costs\<close>

text \<open>The loops of stages 2 and 3 run over \<open>1..n\<close> and \<open>2..k\<close> and index the lists
  \<^verbatim>\<open>W\<close>, \<^verbatim>\<open>XW\<close> (length \<open>n + 1\<close>) and the tables (\<open>n + 1\<close> or \<open>k + 1\<close> rows of
  \<open>n + 1\<close> entries) at naturals up to \<open>n\<close> and \<open>k\<close>, so these reads and writes are
  \<open>xs ! i\<close> and list updates. The accesses that can leave a list are modelled with
  their IndexError: \<^verbatim>\<open>w[i]\<close> in stage 1, \<^verbatim>\<open>DP[1]\<close> when \<open>k = 0\<close>, and every read of the
  backtracking, whose indices come out of the \<^verbatim>\<open>choice\<close> table.\<close>

text \<open>The body of the double loop for one interval: the median \<open>m\<close> and
  \<^verbatim>\<open>Left + Right\<close>.\<close>

definition interval_cost :: "int list \<Rightarrow> int list \<Rightarrow> nat \<Rightarrow> nat \<Rightarrow> nat \<times> int" where
  "interval_cost W XW i j =
     (let m = find_weighted_median i j W;
          Left = (if int i \<le> int m - 1 then
                    (let WL = W ! (m - 1) - W ! (i - 1);
                         XL = XW ! (m - 1) - XW ! (i - 1)
                     in int m * WL - XL)
                  else 0);
          Right = (if m + 1 \<le> j then
                     (let WR = W ! j - W ! m;
                          XR = XW ! j - XW ! m
                      in XR - int m * WR)
                   else 0)
      in (m, Left + Right))"

definition cost_body ::
  "int list \<Rightarrow> int list \<Rightarrow> nat \<Rightarrow> nat \<Rightarrow> int list list \<times> int list list
     \<Rightarrow> int list list \<times> int list list" where
  "cost_body W XW i j tabs =
     (case tabs of (cost, best_server) \<Rightarrow>
        (case interval_cost W XW i j of (m, c) \<Rightarrow>
           (upd2 cost i j c, upd2 best_server i j (int m))))"

definition cost_stage ::
  "nat \<Rightarrow> int list \<Rightarrow> int list \<Rightarrow> int list list \<times> int list list
     \<Rightarrow> int list list \<times> int list list" where
  "cost_stage n W XW tabs =
     fold (\<lambda>i. fold (cost_body W XW i) [i..<n + 1]) [1..<n + 1] tabs"

section \<open>Stage 3: the dynamic program\<close>

text \<open>\<^verbatim>\<open>DP[0][0] = 0\<close> on the fresh tables; with natural \<open>n\<close> and \<open>k\<close> both tables have
  a cell \<open>(0, 0)\<close>.\<close>

definition dp_base0 :: "cell list list \<times> int list list \<Rightarrow> cell list list \<times> int list list" where
  "dp_base0 tabs = (case tabs of (DP, choice) \<Rightarrow> (upd2 DP 0 0 (IntV 0), choice))"

text \<open>\<^verbatim>\<open>DP[1][j] = cost[1][j]; choice[1][j] = 0\<close>. With \<open>k = 0\<close> the tables have the single
  row 0 and \<^verbatim>\<open>DP[1]\<close> raises IndexError.\<close>

definition base_body ::
  "int list list \<Rightarrow> nat \<Rightarrow> cell list list \<times> int list list
     \<Rightarrow> error + cell list list \<times> int list list" where
  "base_body cost j tabs =
     (case tabs of (DP, choice) \<Rightarrow>
        if 1 < length DP then Inr (upd2 DP 1 j (IntV (cost ! 1 ! j)), upd2 choice 1 j 0)
        else Inl IndexError)"

text \<open>The innermost loop over the split point \<open>i\<close>, with its strict comparison.\<close>

definition scan_body ::
  "cell list list \<Rightarrow> int list list \<Rightarrow> nat \<Rightarrow> nat \<Rightarrow> nat \<Rightarrow> cell \<times> int \<Rightarrow> cell \<times> int" where
  "scan_body DP cost t j i b =
     (case b of (best_val, best_i) \<Rightarrow>
        (let val = cell_add (DP ! (t - 1) ! i) (cost ! (i + 1) ! j)
         in if cell_less val best_val then (val, int i) else (best_val, best_i)))"

definition dp_scan :: "cell list list \<Rightarrow> int list list \<Rightarrow> nat \<Rightarrow> nat \<Rightarrow> cell \<times> int" where
  "dp_scan DP cost t j = fold (scan_body DP cost t j) [t - 1..<j] (InfV, - 1)"

definition dp_body ::
  "int list list \<Rightarrow> nat \<Rightarrow> nat \<Rightarrow> cell list list \<times> int list list
     \<Rightarrow> cell list list \<times> int list list" where
  "dp_body cost t j tabs =
     (case tabs of (DP, choice) \<Rightarrow>
        if j < t then (DP, choice)
        else (case dp_scan DP cost t j of (best_val, best_i) \<Rightarrow>
                (upd2 DP t j best_val, upd2 choice t j best_i)))"

definition dp_rows ::
  "nat \<Rightarrow> nat \<Rightarrow> int list list \<Rightarrow> cell list list \<times> int list list
     \<Rightarrow> cell list list \<times> int list list" where
  "dp_rows n k cost tabs = fold (\<lambda>t. fold (dp_body cost t) [1..<n + 1]) [2..<k + 1] tabs"

definition dp_stage ::
  "nat \<Rightarrow> nat \<Rightarrow> int list list \<Rightarrow> cell list list \<times> int list list
     \<Rightarrow> error + cell list list \<times> int list list" where
  "dp_stage n k cost tabs =
     bindE (for_each (base_body cost) [1..<n + 1] (dp_base0 tabs)) (\<lambda>tabs1.
       Inr (dp_rows n k cost tabs1))"

section \<open>Stage 4: backtracking\<close>

text \<open>The \<^verbatim>\<open>while t > 0\<close> loop. \<open>j\<close> is an \<open>int\<close>: it becomes \<open>-1\<close> when an unset
  \<^verbatim>\<open>choice\<close> entry is read, and \<^verbatim>\<open>choice[t][-1]\<close> is then the last entry of the row.\<close>

fun backtrack ::
  "int list list \<Rightarrow> nat \<Rightarrow> int \<Rightarrow> (int \<times> int) list \<Rightarrow> error + (int \<times> int) list" where
  "backtrack choice 0 j segments = Inr segments"
| "backtrack choice (Suc t) j segments =
     bindE (py_get2 choice (int (Suc t)) j) (\<lambda>i.
       backtrack choice t i (segments @ [(i + 1, j)]))"

fun server_positions_of ::
  "int list list \<Rightarrow> (int \<times> int) list \<Rightarrow> error + int option list" where
  "server_positions_of best_server [] = Inr []"
| "server_positions_of best_server ((L, R) # segments) =
     (if L \<le> R then
        bindE (py_get2 best_server L R) (\<lambda>m.
          bindE (server_positions_of best_server segments) (\<lambda>ps. Inr (Some m # ps)))
      else bindE (server_positions_of best_server segments) (\<lambda>ps. Inr (None # ps)))"

section \<open>The whole function\<close>

type_synonym result = "cell \<times> int option list \<times> (int \<times> int) list"

text \<open>Stages 1 and 2 together: the caller's list as the first loop leaves it, and the
  tables \<^verbatim>\<open>cost\<close> and \<^verbatim>\<open>best_server\<close>. The argument \<open>tabs0\<close> is the pair of freshly
  allocated tables.\<close>

definition interval_tables ::
  "nat \<Rightarrow> int list \<Rightarrow> int list list \<times> int list list
     \<Rightarrow> error + int list \<times> int list list \<times> int list list" where
  "interval_tables n w tabs0 =
     bindE (prefix_sums n w) (\<lambda>s.
       case cost_stage n (ps_W s) (ps_XW s) tabs0 of (cost, best_server) \<Rightarrow>
         Inr (ps_w s, cost, best_server))"

text \<open>Everything after the table allocations, which is the same text in both files.\<close>

definition pipeline ::
  "nat \<Rightarrow> nat \<Rightarrow> int list \<Rightarrow> int list list \<times> int list list
     \<Rightarrow> cell list list \<times> int list list \<Rightarrow> error + result \<times> int list" where
  "pipeline n k w tabs0 dptabs0 =
     bindE (interval_tables n w tabs0) (\<lambda>(w', cost, best_server).
       bindE (dp_stage n k cost dptabs0) (\<lambda>(DP, choice).
         bindE (py_get2 DP (int k) (int n)) (\<lambda>min_total_cost.
           bindE (backtrack choice k (int n) []) (\<lambda>segs.
             let segments = rev segs in
             bindE (server_positions_of best_server segments) (\<lambda>server_positions.
               Inr ((min_total_cost, server_positions, segments), w'))))))"

text \<open>\<^verbatim>\<open>Fastkserver.py\<close> allocates its tables with \<^verbatim>\<open>[[v] * (n + 1) for _ in range(r)]\<close>.
  The result comes with the caller's list \<^verbatim>\<open>w\<close> as it is when the call returns.
  The numbers \<open>n\<close> and \<open>k\<close> are naturals and the weights are Python ints. (With a negative
  \<open>n\<close> or \<open>k\<close> a table has no row or no column 0, and \<^verbatim>\<open>DP[0][0] = 0\<close> raises IndexError
  in both files.)\<close>

definition fast_response_k_server_run :: "nat \<Rightarrow> nat \<Rightarrow> int list \<Rightarrow> error + result \<times> int list" where
  "fast_response_k_server_run n k w =
     pipeline n k w
       (replicate (n + 1) (replicate (n + 1) 0), replicate (n + 1) (replicate (n + 1) 0))
       (replicate (k + 1) (replicate (n + 1) InfV), replicate (k + 1) (replicate (n + 1) (- 1)))"

definition fast_response_k_server :: "nat \<Rightarrow> nat \<Rightarrow> int list \<Rightarrow> error + result" where
  "fast_response_k_server n k w = map_sum id fst (fast_response_k_server_run n k w)"

text \<open>The second source file allocates each table with two nested loops of
  \<^verbatim>\<open>row.append(v)\<close> and \<^verbatim>\<open>table.append(row)\<close>; the rest of its function is the text
  of \<^verbatim>\<open>Fastkserver.py\<close>.\<close>

definition alloc_table :: "nat \<Rightarrow> nat \<Rightarrow> 'a \<Rightarrow> 'a list list" where
  "alloc_table r c v =
     fold (\<lambda>i tab. tab @ [fold (\<lambda>j row. row @ [v]) [0..<c] []]) [0..<r] []"

definition fast_response_k_server_run_part_000 ::
  "nat \<Rightarrow> nat \<Rightarrow> int list \<Rightarrow> error + result \<times> int list" where
  "fast_response_k_server_run_part_000 n k w =
     pipeline n k w
       (alloc_table (n + 1) (n + 1) 0, alloc_table (n + 1) (n + 1) 0)
       (alloc_table (k + 1) (n + 1) InfV, alloc_table (k + 1) (n + 1) (- 1))"

definition fast_response_k_server_part_000 :: "nat \<Rightarrow> nat \<Rightarrow> int list \<Rightarrow> error + result" where
  "fast_response_k_server_part_000 n k w =
     map_sum id fst (fast_response_k_server_run_part_000 n k w)"

section \<open>Notions used to state and prove the properties\<close>

text \<open>A table with \<open>r\<close> rows of \<open>c\<close> entries each.\<close>

definition tab_dims :: "nat \<Rightarrow> nat \<Rightarrow> 'a list list \<Rightarrow> bool" where
  "tab_dims r c tab = (length tab = r \<and> list_all (\<lambda>row. length row = c) tab)"

text \<open>The sums the prefix arrays hold: \<open>w[1] + ... + w[i]\<close> and
  \<open>1 * w[1] + ... + i * w[i]\<close>.\<close>

definition Wsum :: "int list \<Rightarrow> nat \<Rightarrow> int" where
  "Wsum w i = (\<Sum>p = 1..i. w ! p)"

definition XWsum :: "int list \<Rightarrow> nat \<Rightarrow> int" where
  "XWsum w i = (\<Sum>p = 1..i. int p * w ! p)"

text \<open>The total weighted distance of the clients \<open>i..j\<close> to a server at \<open>m\<close>.\<close>

definition dist_sum :: "int list \<Rightarrow> nat \<Rightarrow> nat \<Rightarrow> nat \<Rightarrow> int" where
  "dist_sum w i j m = (\<Sum>p = i..j. w ! p * \<bar>int p - int m\<bar>)"

text \<open>The innermost loop of the dynamic program, reading the previous row through a
  function; \<open>dp_scan\<close> is \<open>scan_row\<close> on row \<open>t - 1\<close> of the table.\<close>

definition scan_row :: "(nat \<Rightarrow> cell) \<Rightarrow> int list list \<Rightarrow> nat \<Rightarrow> nat \<Rightarrow> cell \<times> int" where
  "scan_row prev cost t j =
     fold (\<lambda>i b. case b of (best_val, best_i) \<Rightarrow>
             (let val = cell_add (prev i) (cost ! (i + 1) ! j)
              in if cell_less val best_val then (val, int i) else (best_val, best_i)))
       [t - 1..<j] (InfV, - 1)"

text \<open>What the cells \<^verbatim>\<open>DP[t][j]\<close> and \<^verbatim>\<open>choice[t][j]\<close> hold once the loops have filled
  row \<open>t\<close>: the initial values where the loops skip the cell.\<close>

primrec dp_cell :: "int list list \<Rightarrow> nat \<Rightarrow> nat \<Rightarrow> cell \<times> int" where
  "dp_cell cost 0 j = (if j = 0 then IntV 0 else InfV, - 1)"
| "dp_cell cost (Suc t) j =
     (if t = 0 then (if 1 \<le> j then (IntV (cost ! 1 ! j), 0) else (InfV, - 1))
      else if j < Suc t then (InfV, - 1)
      else scan_row (\<lambda>i. fst (dp_cell cost t i)) cost (Suc t) j)"

text \<open>A list of segments that covers \<open>lo..hi\<close> from left to right: every segment is
  non-empty and starts right after the one before it.\<close>

fun covers :: "(int \<times> int) list \<Rightarrow> int \<Rightarrow> int \<Rightarrow> bool" where
  "covers [] lo hi = (lo = hi + 1)"
| "covers ((L, R) # segs) lo hi = (L = lo \<and> L \<le> R \<and> covers segs (R + 1) hi)"

text \<open>The state of the two tables of the dynamic program while the loops run: the rows
  below \<open>t\<close> are filled, row \<open>t\<close> is filled up to column \<open>J\<close>, and every other cell
  still holds its initial value.\<close>

definition dp_filled ::
  "nat \<Rightarrow> nat \<Rightarrow> int list list \<Rightarrow> nat \<Rightarrow> nat \<Rightarrow> cell list list \<times> int list list \<Rightarrow> bool" where
  "dp_filled n k cost t J tabs =
     (case tabs of (DP, choice) \<Rightarrow>
        tab_dims (k + 1) (n + 1) DP \<and> tab_dims (k + 1) (n + 1) choice
        \<and> (\<forall>t' j'. t' \<le> k \<and> j' \<le> n \<longrightarrow>
              (DP ! t' ! j', choice ! t' ! j')
                = (if t' < t \<or> (t' = t \<and> j' \<le> J) then dp_cell cost t' j' else (InfV, - 1))))"

text \<open>The integer in a cell that holds one.\<close>

fun int_of_cell :: "cell \<Rightarrow> int" where
  "int_of_cell (IntV v) = v"
| "int_of_cell InfV = 0"

section \<open>Tables and loops: basic facts\<close>

lemma bindE_Inr [simp]: "bindE (Inr x) f = f x"
  by (simp add: bindE_def)

lemma bindE_Inl [simp]: "bindE (Inl e) f = Inl e"
  by (simp add: bindE_def)

lemma bindE_eq_Inr: "bindE r f = Inr y \<longleftrightarrow> (\<exists>x. r = Inr x \<and> f x = Inr y)"
  by (cases r) simp_all

lemma for_each_append:
  "for_each body (xs @ ys) s = bindE (for_each body xs s) (for_each body ys)"
  by (induction xs arbitrary: s) (simp_all split: sum.splits)

lemma tab_dims_replicate: "tab_dims r c (replicate r (replicate c v))"
  by (simp add: tab_dims_def list_all_length)

lemma tab_dims_row: "tab_dims r c tab \<Longrightarrow> i < r \<Longrightarrow> length (tab ! i) = c"
  by (simp add: tab_dims_def list_all_length)

lemma tab_dims_length: "tab_dims r c tab \<Longrightarrow> length tab = r"
  by (simp add: tab_dims_def)

lemma tab_dims_upd2: "tab_dims r c tab \<Longrightarrow> tab_dims r c (upd2 tab i j v)"
  by (cases "i < length tab") (auto simp: tab_dims_def upd2_def list_all_length nth_list_update)

lemma upd2_nth:
  "tab_dims r c tab \<Longrightarrow> i < r \<Longrightarrow> j < c \<Longrightarrow>
   upd2 tab i j v ! i' ! j' = (if i' = i \<and> j' = j then v else tab ! i' ! j')"
  by (auto simp: tab_dims_def upd2_def list_all_length nth_list_update)

text \<open>Filling one row of a table with values that do not depend on the table.\<close>

lemma fill_row_dims:
  "tab_dims r c tab \<Longrightarrow> tab_dims r c (fold (\<lambda>j tab. upd2 tab i j (f j)) js tab)"
  by (induction js arbitrary: tab) (simp_all add: tab_dims_upd2)

lemma fill_row_nth:
  "tab_dims r c tab \<Longrightarrow> i < r \<Longrightarrow> \<forall>j\<in>set js. j < c \<Longrightarrow>
   fold (\<lambda>j tab. upd2 tab i j (f j)) js tab ! i' ! j'
     = (if i' = i \<and> j' \<in> set js then f j' else tab ! i' ! j')"
proof (induction js arbitrary: tab rule: rev_induct)
  case Nil
  then show ?case by simp
next
  case (snoc x xs)
  have d: "tab_dims r c (fold (\<lambda>j tab. upd2 tab i j (f j)) xs tab)"
    using snoc.prems(1) by (rule fill_row_dims)
  have x: "x < c" using snoc.prems(3) by simp
  have ih: "fold (\<lambda>j tab. upd2 tab i j (f j)) xs tab ! i' ! j'
     = (if i' = i \<and> j' \<in> set xs then f j' else tab ! i' ! j')"
    using snoc.IH [OF snoc.prems(1,2)] snoc.prems(3) by simp
  show ?case
    using ih by (auto simp: upd2_nth [OF d snoc.prems(2) x])
qed

lemma fill_rows_dims:
  "tab_dims r c tab \<Longrightarrow>
   tab_dims r c (fold (\<lambda>i. fold (\<lambda>j tab. upd2 tab i j (f i j)) (js i)) is tab)"
  by (induction "is" arbitrary: tab) (simp_all add: fill_row_dims)

lemma fill_rows_nth:
  "tab_dims r c tab \<Longrightarrow> \<forall>i\<in>set is. i < r \<and> (\<forall>j\<in>set (js i). j < c) \<Longrightarrow>
   fold (\<lambda>i. fold (\<lambda>j tab. upd2 tab i j (f i j)) (js i)) is tab ! i' ! j'
     = (if i' \<in> set is \<and> j' \<in> set (js i') then f i' j' else tab ! i' ! j')"
proof (induction "is" arbitrary: tab rule: rev_induct)
  case Nil
  then show ?case by simp
next
  case (snoc x xs)
  have d: "tab_dims r c (fold (\<lambda>i. fold (\<lambda>j tab. upd2 tab i j (f i j)) (js i)) xs tab)"
    using snoc.prems(1) by (rule fill_rows_dims)
  have x: "x < r" "\<forall>j\<in>set (js x). j < c" using snoc.prems(2) by simp_all
  have ih: "fold (\<lambda>i. fold (\<lambda>j tab. upd2 tab i j (f i j)) (js i)) xs tab ! i' ! j'
     = (if i' \<in> set xs \<and> j' \<in> set (js i') then f i' j' else tab ! i' ! j')"
    using snoc.IH [OF snoc.prems(1)] snoc.prems(2) by simp
  show ?case
    using ih by (auto simp: fill_row_nth [OF d x])
qed

section \<open>The prefix sums\<close>

lemma Wsum_0 [simp]: "Wsum w 0 = 0"
  by (simp add: Wsum_def)

lemma Wsum_Suc [simp]: "Wsum w (Suc i) = Wsum w i + w ! Suc i"
  by (simp add: Wsum_def)

lemma XWsum_0 [simp]: "XWsum w 0 = 0"
  by (simp add: XWsum_def)

lemma XWsum_Suc [simp]: "XWsum w (Suc i) = XWsum w i + int (Suc i) * w ! Suc i"
  by (simp add: XWsum_def)

lemma prefix_loop_inv:
  "m \<le> n \<Longrightarrow> m < length w \<or> m = 0 \<Longrightarrow>
   \<exists>s. for_each prefix_body [1..<m + 1]
         \<lparr>ps_w = w, ps_W = replicate (n + 1) 0, ps_XW = replicate (n + 1) 0\<rparr> = Inr s
     \<and> ps_w s = w \<and> length (ps_W s) = n + 1 \<and> length (ps_XW s) = n + 1
     \<and> (\<forall>i\<le>m. ps_W s ! i = Wsum w i \<and> ps_XW s ! i = XWsum w i)"
proof (induction m)
  case 0
  then show ?case by simp
next
  case (Suc m)
  then obtain s where s: "for_each prefix_body [1..<m + 1]
         \<lparr>ps_w = w, ps_W = replicate (n + 1) 0, ps_XW = replicate (n + 1) 0\<rparr> = Inr s"
    "ps_w s = w" "length (ps_W s) = n + 1" "length (ps_XW s) = n + 1"
    "\<forall>i\<le>m. ps_W s ! i = Wsum w i \<and> ps_XW s ! i = XWsum w i"
    by auto
  have r: "[1..<Suc m + 1] = [1..<m + 1] @ [Suc m]" by simp
  let ?s' = "s\<lparr>ps_W := (ps_W s)[Suc m := ps_W s ! m + w ! Suc m],
                ps_XW := (ps_XW s)[Suc m := ps_XW s ! m + int (Suc m) * w ! Suc m]\<rparr>"
  have b: "prefix_body (Suc m) s = Inr ?s'"
    using Suc.prems s(2) by (simp add: prefix_body_def Let_def)
  have run: "for_each prefix_body [1..<Suc m + 1]
         \<lparr>ps_w = w, ps_W = replicate (n + 1) 0, ps_XW = replicate (n + 1) 0\<rparr> = Inr ?s'"
    unfolding r for_each_append s(1) by (simp add: b)
  have vals: "\<forall>i\<le>Suc m. ps_W ?s' ! i = Wsum w i \<and> ps_XW ?s' ! i = XWsum w i"
  proof (intro allI impI)
    fix i assume "i \<le> Suc m"
    show "ps_W ?s' ! i = Wsum w i \<and> ps_XW ?s' ! i = XWsum w i"
    proof (cases "i = Suc m")
      case True
      then show ?thesis using s(3,4,5) Suc.prems(1) by simp
    next
      case False
      with \<open>i \<le> Suc m\<close> have "i \<le> m" by simp
      then show ?thesis using s(5) False by simp
    qed
  qed
  show ?case
    using run s(2,3,4) vals by (intro exI [of _ ?s']) simp
qed

lemma prefix_sums_ok:
  assumes "n < length w \<or> n = 0"
  shows "\<exists>s. prefix_sums n w = Inr s \<and> ps_w s = w
           \<and> length (ps_W s) = n + 1 \<and> length (ps_XW s) = n + 1
           \<and> (\<forall>i\<le>n. ps_W s ! i = Wsum w i \<and> ps_XW s ! i = XWsum w i)"
  unfolding prefix_sums_def using prefix_loop_inv [of n n w] assms by simp

text \<open>The caller's list is never written, whatever the loop does.\<close>

lemma prefix_body_w: "prefix_body i s = Inr s' \<Longrightarrow> ps_w s' = ps_w s"
  by (auto simp: prefix_body_def Let_def split: if_splits)

lemma for_each_prefix_w: "for_each prefix_body is s = Inr s' \<Longrightarrow> ps_w s' = ps_w s"
proof (induction "is" arbitrary: s)
  case Nil
  then show ?case by simp
next
  case (Cons i "is")
  then show ?case
    by (auto split: sum.splits dest: prefix_body_w)
qed

lemma prefix_sums_w: "prefix_sums n w = Inr s \<Longrightarrow> ps_w s = w"
  unfolding prefix_sums_def by (drule for_each_prefix_w) simp

text \<open>Range sums from the prefix sums.\<close>

lemma Wsum_diff: "a \<le> b \<Longrightarrow> Wsum w b - Wsum w a = (\<Sum>p = a + 1..b. w ! p)"
proof (induction b)
  case 0
  then show ?case by simp
next
  case (Suc b)
  show ?case
  proof (cases "a = Suc b")
    case True
    then show ?thesis by simp
  next
    case False
    with Suc.prems have "a \<le> b" by simp
    then have "Wsum w b - Wsum w a = (\<Sum>p = a + 1..b. w ! p)" by (rule Suc.IH)
    moreover have "(\<Sum>p = a + 1..Suc b. w ! p) = (\<Sum>p = a + 1..b. w ! p) + w ! Suc b"
      using \<open>a \<le> b\<close> by simp
    ultimately show ?thesis by simp
  qed
qed

lemma XWsum_diff: "a \<le> b \<Longrightarrow> XWsum w b - XWsum w a = (\<Sum>p = a + 1..b. int p * w ! p)"
proof (induction b)
  case 0
  then show ?case by simp
next
  case (Suc b)
  show ?case
  proof (cases "a = Suc b")
    case True
    then show ?thesis by simp
  next
    case False
    with Suc.prems have "a \<le> b" by simp
    then have "XWsum w b - XWsum w a = (\<Sum>p = a + 1..b. int p * w ! p)" by (rule Suc.IH)
    moreover have "(\<Sum>p = a + 1..Suc b. int p * w ! p)
        = (\<Sum>p = a + 1..b. int p * w ! p) + int (Suc b) * w ! Suc b"
      using \<open>a \<le> b\<close> by simp
    ultimately show ?thesis by simp
  qed
qed

lemma Wsum_mono:
  assumes "\<forall>p\<in>{1..n}. 0 \<le> w ! p" "a \<le> b" "b \<le> n"
  shows "Wsum w a \<le> Wsum w b"
proof -
  have "0 \<le> (\<Sum>p = a + 1..b. w ! p)"
    using assms by (intro sum_nonneg) auto
  then show ?thesis using Wsum_diff [OF assms(2), of w] by simp
qed

section \<open>The weighted median minimises the weighted distance\<close>

lemma find_upt_cases:
  "find P [i..<j + 1] = None \<and> (\<forall>p. i \<le> p \<and> p \<le> j \<longrightarrow> \<not> P p)
   \<or> (\<exists>m. find P [i..<j + 1] = Some m \<and> i \<le> m \<and> m \<le> j \<and> P m
          \<and> (\<forall>p. i \<le> p \<and> p < m \<longrightarrow> \<not> P p))"
proof (cases "find P [i..<j + 1]")
  case None
  then show ?thesis by (auto simp: find_None_iff)
next
  case (Some m)
  then obtain x where x: "x < length [i..<j + 1]" "P ([i..<j + 1] ! x)" "m = [i..<j + 1] ! x"
    "\<forall>y<x. \<not> P ([i..<j + 1] ! y)"
    unfolding find_Some_iff by blast
  have m: "m = i + x" using x(1,3) by (simp del: upt_Suc)
  have "\<not> P p" if "i \<le> p" "p < m" for p
  proof -
    have "p - i < x" using that m by simp
    then have "\<not> P ([i..<j + 1] ! (p - i))" using x(4) by blast
    moreover have "[i..<j + 1] ! (p - i) = p" using that m x(1) by (simp del: upt_Suc)
    ultimately show ?thesis by simp
  qed
  then show ?thesis using Some x(1,2) m by (auto simp del: upt_Suc)
qed

lemma half_up_ge: "(a::int) + (t + 1) div 2 \<le> x \<Longrightarrow> x \<le> y \<Longrightarrow> t \<le> 2 * (y - a)"
  by presburger

lemma half_up_le: "(x::int) < a + (t + 1) div 2 \<Longrightarrow> 2 * (x - a) \<le> t"
  by presburger

lemma fwm_range: "i \<le> j \<Longrightarrow> i \<le> find_weighted_median i j W \<and> find_weighted_median i j W \<le> j"
  unfolding find_weighted_median_def Let_def
  using find_upt_cases [of "\<lambda>pos. W ! (i - 1) + (W ! j - W ! (i - 1) + 1) div 2 \<le> W ! pos" i j]
  by auto

lemma fwm_least:
  assumes "i \<le> j" "W ! (i - 1) \<le> W ! j"
  defines "target \<equiv> W ! (i - 1) + (W ! j - W ! (i - 1) + 1) div 2"
  defines "m \<equiv> find_weighted_median i j W"
  shows "i \<le> m \<and> m \<le> j \<and> target \<le> W ! m \<and> (\<forall>p. i \<le> p \<and> p < m \<longrightarrow> W ! p < target)"
proof -
  have tj: "target \<le> W ! j" using assms(2) unfolding target_def by linarith
  from find_upt_cases [of "\<lambda>pos. target \<le> W ! pos" i j]
  obtain m' where m': "find (\<lambda>pos. target \<le> W ! pos) [i..<j + 1] = Some m'" "i \<le> m'" "m' \<le> j"
    "target \<le> W ! m'" "\<forall>p. i \<le> p \<and> p < m' \<longrightarrow> \<not> target \<le> W ! p"
    using tj assms(1) by blast
  have "m = m'"
    unfolding m_def find_weighted_median_def Let_def using m'(1) unfolding target_def by simp
  then show ?thesis using m' by auto
qed

lemma interval_cost_fst: "fst (interval_cost W XW i j) = find_weighted_median i j W"
  by (simp add: interval_cost_def Let_def)

lemma interval_cost_diag: "snd (interval_cost W XW i i) = 0"
  using fwm_range [of i i W] by (simp add: interval_cost_def Let_def)

lemma dist_split:
  assumes "i \<le> m" "m \<le> j"
  shows "dist_sum w i j m
         = (\<Sum>p = i..<m. w ! p * (int m - int p)) + (\<Sum>p = m + 1..j. w ! p * (int p - int m))"
proof -
  have s: "{i..j} = {i..<m} \<union> {m..j}" using assms by auto
  have t: "{m..j} = insert m {m + 1..j}" using assms by auto
  have "dist_sum w i j m = (\<Sum>p = i..<m. w ! p * \<bar>int p - int m\<bar>)
          + (\<Sum>p = m..j. w ! p * \<bar>int p - int m\<bar>)"
    unfolding dist_sum_def s by (rule sum.union_disjoint) auto
  also have "(\<Sum>p = m..j. w ! p * \<bar>int p - int m\<bar>) = (\<Sum>p = m + 1..j. w ! p * \<bar>int p - int m\<bar>)"
    unfolding t by simp
  also have "(\<Sum>p = i..<m. w ! p * \<bar>int p - int m\<bar>) = (\<Sum>p = i..<m. w ! p * (int m - int p))"
    by (rule sum.cong) auto
  also have "(\<Sum>p = m + 1..j. w ! p * \<bar>int p - int m\<bar>) = (\<Sum>p = m + 1..j. w ! p * (int p - int m))"
    by (rule sum.cong) auto
  finally show ?thesis .
qed

lemma interval_cost_dist:
  assumes W: "\<forall>x\<le>n. W ! x = Wsum w x" and XW: "\<forall>x\<le>n. XW ! x = XWsum w x"
    and ij: "1 \<le> i" "i \<le> j" "j \<le> n"
  shows "snd (interval_cost W XW i j) = dist_sum w i j (find_weighted_median i j W)"
proof -
  define m where "m = find_weighted_median i j W"
  have m: "i \<le> m" "m \<le> j" using fwm_range [OF ij(2), of W] by (simp_all add: m_def)
  have left: "(if int i \<le> int m - 1 then int m * (W ! (m - 1) - W ! (i - 1)) - (XW ! (m - 1) - XW ! (i - 1)) else 0)
        = (\<Sum>p = i..<m. w ! p * (int m - int p))"
  proof (cases "i < m")
    case True
    have r: "{i - 1 + 1..m - 1} = {i..<m}" using True ij(1) by auto
    have le: "i - 1 \<le> m - 1" using True by simp
    have "W ! (m - 1) - W ! (i - 1) = (\<Sum>p = i..<m. w ! p)"
      using Wsum_diff [OF le, of w] W m ij unfolding r by simp
    moreover have "XW ! (m - 1) - XW ! (i - 1) = (\<Sum>p = i..<m. int p * w ! p)"
      using XWsum_diff [OF le, of w] XW m ij unfolding r by simp
    ultimately have "int m * (W ! (m - 1) - W ! (i - 1)) - (XW ! (m - 1) - XW ! (i - 1))
        = (\<Sum>p = i..<m. w ! p * (int m - int p))"
      by (simp add: sum_distrib_left sum_subtractf [symmetric] algebra_simps)
    then show ?thesis using True by simp
  next
    case False
    then show ?thesis using m by simp
  qed
  have right: "(if m + 1 \<le> j then (XW ! j - XW ! m) - int m * (W ! j - W ! m) else 0)
        = (\<Sum>p = m + 1..j. w ! p * (int p - int m))"
  proof (cases "m + 1 \<le> j")
    case True
    have "W ! j - W ! m = (\<Sum>p = m + 1..j. w ! p)"
      using Wsum_diff [OF m(2), of w] W m ij by simp
    moreover have "XW ! j - XW ! m = (\<Sum>p = m + 1..j. int p * w ! p)"
      using XWsum_diff [OF m(2), of w] XW m ij by simp
    ultimately have "(XW ! j - XW ! m) - int m * (W ! j - W ! m)
        = (\<Sum>p = m + 1..j. w ! p * (int p - int m))"
      by (simp add: sum_distrib_left sum_subtractf [symmetric] algebra_simps)
    then show ?thesis using True by simp
  next
    case False
    then show ?thesis by simp
  qed
  have "snd (interval_cost W XW i j)
      = (if int i \<le> int m - 1 then int m * (W ! (m - 1) - W ! (i - 1)) - (XW ! (m - 1) - XW ! (i - 1)) else 0)
      + (if m + 1 \<le> j then (XW ! j - XW ! m) - int m * (W ! j - W ! m) else 0)"
    by (simp add: interval_cost_def Let_def m_def)
  also have "\<dots> = dist_sum w i j m"
    unfolding left right using dist_split [OF m, of w] by simp
  finally show ?thesis by (simp add: m_def)
qed

text \<open>Moving the server one position to the right changes the cost by the weight on
  its left minus the weight on its right.\<close>

lemma dist_step:
  assumes "i \<le> c" "c < j"
  shows "dist_sum w i j (c + 1) - dist_sum w i j c
         = (\<Sum>p = i..c. w ! p) - (\<Sum>p = c + 1..j. w ! p)"
proof -
  have s: "{i..j} = {i..c} \<union> {c + 1..j}" using assms by auto
  have "dist_sum w i j (c + 1) - dist_sum w i j c
        = (\<Sum>p = i..j. w ! p * (\<bar>int p - int (c + 1)\<bar> - \<bar>int p - int c\<bar>))"
    unfolding dist_sum_def by (simp add: sum_subtractf [symmetric] algebra_simps)
  also have "\<dots> = (\<Sum>p = i..c. w ! p * (\<bar>int p - int (c + 1)\<bar> - \<bar>int p - int c\<bar>))
                + (\<Sum>p = c + 1..j. w ! p * (\<bar>int p - int (c + 1)\<bar> - \<bar>int p - int c\<bar>))"
    unfolding s by (rule sum.union_disjoint) auto
  also have "(\<Sum>p = i..c. w ! p * (\<bar>int p - int (c + 1)\<bar> - \<bar>int p - int c\<bar>)) = (\<Sum>p = i..c. w ! p)"
    by (rule sum.cong) auto
  also have "(\<Sum>p = c + 1..j. w ! p * (\<bar>int p - int (c + 1)\<bar> - \<bar>int p - int c\<bar>))
                = (\<Sum>p = c + 1..j. - (w ! p))"
    by (rule sum.cong) auto
  finally show ?thesis by (simp add: sum_negf)
qed

lemma dist_step_W:
  assumes "1 \<le> i" "i \<le> c" "c < j"
  shows "dist_sum w i j (c + 1) - dist_sum w i j c
         = 2 * (Wsum w c - Wsum w (i - 1)) - (Wsum w j - Wsum w (i - 1))"
proof -
  have a: "Wsum w c - Wsum w (i - 1) = (\<Sum>p = i..c. w ! p)"
    using Wsum_diff [of "i - 1" c w] assms by simp
  have b: "Wsum w j - Wsum w c = (\<Sum>p = c + 1..j. w ! p)"
    using Wsum_diff [of c j w] assms by simp
  show ?thesis unfolding dist_step [OF assms(2,3)] using a b by simp
qed

lemma dist_right_of_median:
  assumes "1 \<le> i" "i \<le> m"
    and up: "\<forall>c. m \<le> c \<and> c < j \<longrightarrow> Wsum w j - Wsum w (i - 1) \<le> 2 * (Wsum w c - Wsum w (i - 1))"
    and c: "m \<le> c" "c \<le> j"
  shows "dist_sum w i j m \<le> dist_sum w i j c"
  using c
proof (induction c rule: nat_induct_at_least)
  case base
  then show ?case by simp
next
  case (Suc c)
  then have "dist_sum w i j m \<le> dist_sum w i j c" by simp
  moreover have "dist_sum w i j c \<le> dist_sum w i j (c + 1)"
    using dist_step_W [of i c j w] up Suc assms(1,2) by fastforce
  ultimately show ?case by simp
qed

lemma dist_left_of_median:
  assumes "1 \<le> i"
    and down: "\<forall>c. i \<le> c \<and> c < m \<longrightarrow> 2 * (Wsum w c - Wsum w (i - 1)) \<le> Wsum w j - Wsum w (i - 1)"
    and m: "m \<le> j"
  shows "d \<le> m - i \<Longrightarrow> dist_sum w i j m \<le> dist_sum w i j (m - d)"
proof (induction d)
  case 0
  then show ?case by simp
next
  case (Suc d)
  then have ih: "dist_sum w i j m \<le> dist_sum w i j (m - d)" by simp
  have c: "i \<le> m - Suc d" "m - Suc d < m" "m - Suc d < j" "m - Suc d + 1 = m - d"
    using Suc.prems m by simp_all
  have "dist_sum w i j (m - d) \<le> dist_sum w i j (m - Suc d)"
    using dist_step_W [OF assms(1) c(1) c(3), of w] down c(1,2) unfolding c(4) by fastforce
  with ih show ?case by simp
qed

lemma median_optimal:
  assumes W: "\<forall>x\<le>n. W ! x = Wsum w x" and nonneg: "\<forall>p\<in>{1..n}. 0 \<le> w ! p"
    and ij: "1 \<le> i" "i \<le> j" "j \<le> n" and c: "i \<le> c" "c \<le> j"
  shows "dist_sum w i j (find_weighted_median i j W) \<le> dist_sum w i j c"
proof -
  define m where "m = find_weighted_median i j W"
  define total where "total = Wsum w j - Wsum w (i - 1)"
  have le: "W ! (i - 1) \<le> W ! j"
    using W ij Wsum_mono [OF nonneg, of "i - 1" j] by simp
  from fwm_least [OF ij(2) le]
  have m: "i \<le> m" "m \<le> j" "W ! (i - 1) + (W ! j - W ! (i - 1) + 1) div 2 \<le> W ! m"
    "\<forall>p. i \<le> p \<and> p < m \<longrightarrow> W ! p < W ! (i - 1) + (W ! j - W ! (i - 1) + 1) div 2"
    unfolding m_def by simp_all
  have Wi: "W ! (i - 1) = Wsum w (i - 1)" "W ! j = Wsum w j" "W ! m = Wsum w m"
    using W ij m by simp_all
  have up: "\<forall>c. m \<le> c \<and> c < j \<longrightarrow> Wsum w j - Wsum w (i - 1) \<le> 2 * (Wsum w c - Wsum w (i - 1))"
  proof (intro allI impI)
    fix c assume c: "m \<le> c \<and> c < j"
    then have "Wsum w m \<le> Wsum w c" using Wsum_mono [OF nonneg, of m c] ij by simp
    then show "Wsum w j - Wsum w (i - 1) \<le> 2 * (Wsum w c - Wsum w (i - 1))"
      using half_up_ge [OF m(3)] unfolding Wi by blast
  qed
  have down: "\<forall>c. i \<le> c \<and> c < m \<longrightarrow> 2 * (Wsum w c - Wsum w (i - 1)) \<le> Wsum w j - Wsum w (i - 1)"
  proof (intro allI impI)
    fix c assume c: "i \<le> c \<and> c < m"
    then have "W ! c < W ! (i - 1) + (W ! j - W ! (i - 1) + 1) div 2" using m(4) by blast
    from half_up_le [OF this] have "2 * (W ! c - W ! (i - 1)) \<le> W ! j - W ! (i - 1)" .
    moreover have "W ! c = Wsum w c" using W c m ij by simp
    ultimately show "2 * (Wsum w c - Wsum w (i - 1)) \<le> Wsum w j - Wsum w (i - 1)"
      unfolding Wi by simp
  qed
  show ?thesis
  proof (cases "m \<le> c")
    case True
    then show ?thesis
      using dist_right_of_median [OF ij(1) m(1) up True c(2)] by (simp add: m_def)
  next
    case False
    then have "c = m - (m - c)" "m - c \<le> m - i" using c by simp_all
    then show ?thesis
      using dist_left_of_median [OF ij(1) down m(2), of "m - c"] by (simp add: m_def)
  qed
qed

section \<open>The interval cost table\<close>

lemma cost_body_fold_fst:
  "fst (fold (cost_body W XW i) js tabs)
     = fold (\<lambda>j tab. upd2 tab i j (snd (interval_cost W XW i j))) js (fst tabs)"
  by (induction js arbitrary: tabs) (simp_all add: cost_body_def split: prod.splits)

lemma cost_body_fold_snd:
  "snd (fold (cost_body W XW i) js tabs)
     = fold (\<lambda>j tab. upd2 tab i j (int (fst (interval_cost W XW i j)))) js (snd tabs)"
  by (induction js arbitrary: tabs) (simp_all add: cost_body_def split: prod.splits)

lemma cost_rows_fst:
  "fst (fold (\<lambda>i. fold (cost_body W XW i) (js i)) is tabs)
     = fold (\<lambda>i. fold (\<lambda>j tab. upd2 tab i j (snd (interval_cost W XW i j))) (js i)) is (fst tabs)"
  by (induction "is" arbitrary: tabs) (simp_all add: cost_body_fold_fst)

lemma cost_rows_snd:
  "snd (fold (\<lambda>i. fold (cost_body W XW i) (js i)) is tabs)
     = fold (\<lambda>i. fold (\<lambda>j tab. upd2 tab i j (int (fst (interval_cost W XW i j)))) (js i)) is (snd tabs)"
  by (induction "is" arbitrary: tabs) (simp_all add: cost_body_fold_snd)

lemma cost_stage_cost:
  assumes "tab_dims (n + 1) (n + 1) (fst tabs)"
  shows "tab_dims (n + 1) (n + 1) (fst (cost_stage n W XW tabs))"
    and "fst (cost_stage n W XW tabs) ! i ! j
         = (if 1 \<le> i \<and> i \<le> j \<and> j \<le> n then snd (interval_cost W XW i j) else fst tabs ! i ! j)"
proof -
  show "tab_dims (n + 1) (n + 1) (fst (cost_stage n W XW tabs))"
    unfolding cost_stage_def cost_rows_fst using assms by (rule fill_rows_dims)
  have b: "\<forall>i\<in>set [1..<n + 1]. i < n + 1 \<and> (\<forall>j\<in>set [i..<n + 1]. j < n + 1)" by auto
  show "fst (cost_stage n W XW tabs) ! i ! j
         = (if 1 \<le> i \<and> i \<le> j \<and> j \<le> n then snd (interval_cost W XW i j) else fst tabs ! i ! j)"
    unfolding cost_stage_def cost_rows_fst fill_rows_nth [OF assms b] by auto
qed

lemma cost_stage_best:
  assumes "tab_dims (n + 1) (n + 1) (snd tabs)"
  shows "tab_dims (n + 1) (n + 1) (snd (cost_stage n W XW tabs))"
    and "snd (cost_stage n W XW tabs) ! i ! j
         = (if 1 \<le> i \<and> i \<le> j \<and> j \<le> n then int (find_weighted_median i j W) else snd tabs ! i ! j)"
proof -
  show "tab_dims (n + 1) (n + 1) (snd (cost_stage n W XW tabs))"
    unfolding cost_stage_def cost_rows_snd using assms by (rule fill_rows_dims)
  have b: "\<forall>i\<in>set [1..<n + 1]. i < n + 1 \<and> (\<forall>j\<in>set [i..<n + 1]. j < n + 1)" by auto
  show "snd (cost_stage n W XW tabs) ! i ! j
         = (if 1 \<le> i \<and> i \<le> j \<and> j \<le> n then int (find_weighted_median i j W) else snd tabs ! i ! j)"
    unfolding cost_stage_def cost_rows_snd fill_rows_nth [OF assms b] interval_cost_fst by auto
qed

text \<open>What stages 1 and 2 return on the tables of \<^verbatim>\<open>Fastkserver.py\<close>.\<close>

lemma interval_tables_ok:
  assumes "n < length w \<or> n = 0"
  shows "\<exists>W XW cost best_server.
           interval_tables n w
             (replicate (n + 1) (replicate (n + 1) 0), replicate (n + 1) (replicate (n + 1) 0))
             = Inr (w, cost, best_server)
         \<and> (\<forall>x\<le>n. W ! x = Wsum w x) \<and> (\<forall>x\<le>n. XW ! x = XWsum w x)
         \<and> tab_dims (n + 1) (n + 1) cost \<and> tab_dims (n + 1) (n + 1) best_server
         \<and> (\<forall>i j. 1 \<le> i \<and> i \<le> j \<and> j \<le> n \<longrightarrow>
               cost ! i ! j = snd (interval_cost W XW i j)
             \<and> best_server ! i ! j = int (find_weighted_median i j W))
         \<and> (\<forall>j\<le>n. best_server ! 0 ! j = 0)"
proof -
  let ?t0 = "(replicate (n + 1) (replicate (n + 1) (0::int)), replicate (n + 1) (replicate (n + 1) (0::int)))"
  from prefix_sums_ok [OF assms] obtain s where s: "prefix_sums n w = Inr s" "ps_w s = w"
    "\<forall>i\<le>n. ps_W s ! i = Wsum w i \<and> ps_XW s ! i = XWsum w i"
    by blast
  let ?r = "cost_stage n (ps_W s) (ps_XW s) ?t0"
  have d: "tab_dims (n + 1) (n + 1) (fst ?t0)" "tab_dims (n + 1) (n + 1) (snd ?t0)"
    by (simp_all only: fst_conv snd_conv tab_dims_replicate)
  have eq: "cost_stage n (ps_W s) (ps_XW s) ?t0 = (fst ?r, snd ?r)" by simp
  have run: "interval_tables n w ?t0 = Inr (w, fst ?r, snd ?r)"
    unfolding interval_tables_def s(1) bindE_Inr s(2) by (subst eq) simp
  have c: "cost ! i ! j = snd (interval_cost (ps_W s) (ps_XW s) i j)
            \<and> best ! i ! j = int (find_weighted_median i j (ps_W s))"
    if "1 \<le> i \<and> i \<le> j \<and> j \<le> n" "cost = fst ?r" "best = snd ?r" for i j cost best
    using that cost_stage_cost(2) [OF d(1), of "ps_W s" "ps_XW s" i j]
      cost_stage_best(2) [OF d(2), of "ps_W s" "ps_XW s" i j] by simp
  have z: "snd ?r ! 0 ! j = 0" if "j \<le> n" for j
    using that cost_stage_best(2) [OF d(2), of "ps_W s" "ps_XW s" 0 j]
    by (simp del: replicate_Suc)
  show ?thesis
  proof (intro exI conjI)
    show "interval_tables n w ?t0 = Inr (w, fst ?r, snd ?r)" by (rule run)
    show "\<forall>x\<le>n. ps_W s ! x = Wsum w x" using s(3) by simp
    show "\<forall>x\<le>n. ps_XW s ! x = XWsum w x" using s(3) by simp
    show "tab_dims (n + 1) (n + 1) (fst ?r)" by (rule cost_stage_cost(1) [OF d(1)])
    show "tab_dims (n + 1) (n + 1) (snd ?r)" by (rule cost_stage_best(1) [OF d(2)])
    show "\<forall>i j. 1 \<le> i \<and> i \<le> j \<and> j \<le> n \<longrightarrow>
               fst ?r ! i ! j = snd (interval_cost (ps_W s) (ps_XW s) i j)
             \<and> snd ?r ! i ! j = int (find_weighted_median i j (ps_W s))"
      using c by blast
    show "\<forall>j\<le>n. snd ?r ! 0 ! j = 0" using z by blast
  qed
qed

lemma alloc_row: "fold (\<lambda>j row. row @ [v]) [0..<c] [] = replicate c v"
  by (induction c) (simp_all add: replicate_append_same)

lemma alloc_table_replicate: "alloc_table r c v = replicate r (replicate c v)"
  unfolding alloc_table_def alloc_row
  by (induction r) (simp_all add: replicate_append_same)

section \<open>Properties of the interval costs, the two files and the input list\<close>

text \<open>
  C1: for weights \<open>w[1..n]\<close> that are non-negative and every interval \<open>1 \<le> i \<le> j \<le> n\<close>,
  the entry \<^verbatim>\<open>cost[i][j]\<close> that the interval-cost stage computes is the minimum, over the
  server positions \<open>m\<close> in \<open>i..j\<close>, of the sum over \<open>p\<close> in \<open>i..j\<close> of
  \<open>w[p] * |p - m|\<close>. The stage runs without error when \<open>w\<close> holds the entries \<open>0..n\<close>.
\<close>

theorem interval_cost_is_brute_force_minimum:
  assumes "n < length w" and "\<forall>p\<in>{1..n}. 0 \<le> w ! p" and "1 \<le> i" and "i \<le> j" and "j \<le> n"
  shows "\<exists>cost best_server.
           interval_tables n w
             (replicate (n + 1) (replicate (n + 1) 0), replicate (n + 1) (replicate (n + 1) 0))
             = Inr (w, cost, best_server)
         \<and> cost ! i ! j = Min ((\<lambda>m. dist_sum w i j m) ` {i..j})"
proof -
  from interval_tables_ok [of n w] assms(1)
  obtain W XW cost best_server where t:
    "interval_tables n w
       (replicate (n + 1) (replicate (n + 1) 0), replicate (n + 1) (replicate (n + 1) 0))
       = Inr (w, cost, best_server)"
    "\<forall>x\<le>n. W ! x = Wsum w x" "\<forall>x\<le>n. XW ! x = XWsum w x"
    "\<forall>i j. 1 \<le> i \<and> i \<le> j \<and> j \<le> n \<longrightarrow>
        cost ! i ! j = snd (interval_cost W XW i j)
      \<and> best_server ! i ! j = int (find_weighted_median i j W)"
    by blast
  define m where "m = find_weighted_median i j W"
  have c: "cost ! i ! j = dist_sum w i j m"
    using t(4) assms(3-5) interval_cost_dist [OF t(2,3) assms(3-5)] by (simp add: m_def)
  have m: "i \<le> m" "m \<le> j" using fwm_range [OF assms(4), of W] by (simp_all add: m_def)
  have "Min ((\<lambda>m. dist_sum w i j m) ` {i..j}) = dist_sum w i j m"
  proof (rule Min_eqI)
    show "finite ((\<lambda>m. dist_sum w i j m) ` {i..j})" by simp
    show "dist_sum w i j m \<le> y" if "y \<in> (\<lambda>m. dist_sum w i j m) ` {i..j}" for y
      using that median_optimal [OF t(2) assms(2) assms(3-5)] by (auto simp: m_def)
    show "dist_sum w i j m \<in> (\<lambda>m. dist_sum w i j m) ` {i..j}" using m by simp
  qed
  with c t(1) show ?thesis by simp
qed

theorem interval_cost_is_brute_force_minimum_witness:
  "\<exists>cost best_server.
     interval_tables 4 [0, 1, 1, 1, 1]
       (replicate (4 + 1) (replicate (4 + 1) 0), replicate (4 + 1) (replicate (4 + 1) 0))
       = Inr ([0, 1, 1, 1, 1], cost, best_server)
   \<and> cost ! 2 ! 4 = Min ((\<lambda>m. dist_sum [0, 1, 1, 1, 1] 2 4 m) ` {2..4})"
proof -
  have nn: "\<forall>p\<in>{1..4}. 0 \<le> [0, 1, 1, 1, 1 :: int] ! p"
    by (auto simp: nth_Cons split: nat.splits)
  show ?thesis
    using interval_cost_is_brute_force_minimum [of 4 "[0, 1, 1, 1, 1]" 2 4, OF _ nn] by simp
qed

text \<open>
  C5: on the prefix sums \<open>W\<close> of non-negative weights and an interval \<open>1 \<le> i \<le> j \<le> n\<close>,
  \<^verbatim>\<open>find_weighted_median(i, j, W)\<close> returns the smallest position \<open>p\<close> in \<open>i..j\<close> with
  \<open>W[p] \<ge> W[i-1] + (total + 1) div 2\<close>, where \<open>total = W[j] - W[i-1]\<close>: the result lies
  in \<open>i..j\<close>, reaches the target, and no earlier position of the interval does.
\<close>

theorem find_weighted_median_is_least:
  assumes "n < length w" and "\<forall>p\<in>{1..n}. 0 \<le> w ! p" and "1 \<le> i" and "i \<le> j" and "j \<le> n"
  shows "\<exists>s. prefix_sums n w = Inr s
         \<and> (let W = ps_W s;
                target = W ! (i - 1) + (W ! j - W ! (i - 1) + 1) div 2;
                m = find_weighted_median i j W
            in i \<le> m \<and> m \<le> j \<and> target \<le> W ! m \<and> (\<forall>p. i \<le> p \<and> p < m \<longrightarrow> W ! p < target))"
proof -
  from prefix_sums_ok [of n w] assms(1) obtain s where s: "prefix_sums n w = Inr s"
    "\<forall>i\<le>n. ps_W s ! i = Wsum w i \<and> ps_XW s ! i = XWsum w i"
    by blast
  have "ps_W s ! (i - 1) \<le> ps_W s ! j"
    using s(2) assms(3-5) Wsum_mono [OF assms(2), of "i - 1" j] by simp
  from fwm_least [OF assms(4) this] s(1) show ?thesis by (simp add: Let_def)
qed

theorem find_weighted_median_is_least_witness:
  "\<exists>s. prefix_sums 4 [0, 1, 1, 1, 1] = Inr s
     \<and> (let W = ps_W s;
            target = W ! (2 - 1) + (W ! 4 - W ! (2 - 1) + 1) div 2;
            m = find_weighted_median 2 4 W
        in 2 \<le> m \<and> m \<le> 4 \<and> target \<le> W ! m \<and> (\<forall>p. 2 \<le> p \<and> p < m \<longrightarrow> W ! p < target))"
proof -
  have nn: "\<forall>p\<in>{1..4}. 0 \<le> [0, 1, 1, 1, 1 :: int] ! p"
    by (auto simp: nth_Cons split: nat.splits)
  show ?thesis
    using find_weighted_median_is_least [of 4 "[0, 1, 1, 1, 1]" 2 4, OF _ nn] by simp
qed

text \<open>
  C9: the function of \<^verbatim>\<open>Fastkserver.py\<close> and the function of the second source file
  agree on every input: the same error or the same triple.
\<close>

theorem both_files_agree:
  "fast_response_k_server_part_000 n k w = fast_response_k_server n k w"
  by (simp only: fast_response_k_server_part_000_def fast_response_k_server_def
      fast_response_k_server_run_part_000_def fast_response_k_server_run_def
      alloc_table_replicate)

lemma pipeline_w:
  assumes "pipeline n k w tabs0 dptabs0 = Inr (res, w')"
  shows "w' = w"
proof -
  from assms obtain w1 cost best_server where i: "interval_tables n w tabs0 = Inr (w1, cost, best_server)"
    and r: "w' = w1"
    unfolding pipeline_def
    by (auto simp: bindE_eq_Inr Let_def split: prod.splits)
  from i obtain s where "prefix_sums n w = Inr s" "w1 = ps_w s"
    unfolding interval_tables_def by (auto simp: bindE_eq_Inr split: prod.splits)
  then show ?thesis using prefix_sums_w r by simp
qed

text \<open>
  C10: when the call returns, the caller's list \<open>w\<close> is what it was before the call,
  in both files.
\<close>

theorem weights_unchanged:
  "(fast_response_k_server_run n k w = Inr (res, w') \<longrightarrow> w' = w)
   \<and> (fast_response_k_server_run_part_000 n k w = Inr (res, w') \<longrightarrow> w' = w)"
  unfolding fast_response_k_server_run_def fast_response_k_server_run_part_000_def
  using pipeline_w by blast

theorem weights_unchanged_witness:
  "map_sum id snd (fast_response_k_server_run 4 2 [0, 1, 1, 1, 1]) = Inr [0, 1, 1, 1, 1]"
proof -
  have "fast_response_k_server_run 4 2 [0, 1, 1, 1, 1]
          = Inr ((IntV 2, [Some 1, Some 3], [(1, 1), (2, 4)]), [0, 1, 1, 1, 1])"
    by code_simp
  then obtain res w' where e: "fast_response_k_server_run 4 2 [0, 1, 1, 1, 1] = Inr (res, w')"
    by blast
  from weights_unchanged [of 4 2 "[0, 1, 1, 1, 1]" res w'] e have "w' = [0, 1, 1, 1, 1]" by blast
  with e show ?thesis by simp
qed

text \<open>
  C8: on \<open>n = 4\<close>, \<open>k = 2\<close> and the weights \<open>w = [_, 1, 1, 1, 1]\<close> (index 0 unused, here 0)
  the function returns \<open>min_total_cost = 2\<close>, \<open>segments = [(1,1), (2,4)]\<close> and
  \<open>server_positions = [1, 3]\<close>.
\<close>

theorem scenario_four_clients_two_servers:
  "fast_response_k_server 4 2 [0, 1, 1, 1, 1]
     = Inr (IntV 2, [Some 1, Some 3], [(1, 1), (2, 4)])"
  by code_simp

section \<open>The tables of the dynamic program\<close>

lemma dp_scan_scan_row: "dp_scan DP cost t j = scan_row (\<lambda>i. DP ! (t - 1) ! i) cost t j"
  unfolding dp_scan_def scan_row_def scan_body_def by (rule refl)

lemma scan_row_cong:
  assumes "\<forall>i. t - 1 \<le> i \<and> i < j \<longrightarrow> prev i = prev' i"
  shows "scan_row prev cost t j = scan_row prev' cost t j"
  unfolding scan_row_def using assms by (intro fold_cong) auto

lemma length_upd2 [simp]: "length (upd2 tab i j v) = length tab"
  by (simp add: upd2_def)

lemma base_loop_ok:
  "1 < length DP \<Longrightarrow>
   for_each (base_body cost) js (DP, choice)
     = Inr (fold (\<lambda>j tab. upd2 tab 1 j (IntV (cost ! 1 ! j))) js DP,
            fold (\<lambda>j tab. upd2 tab 1 j 0) js choice)"
  by (induction js arbitrary: DP choice) (simp_all add: base_body_def)

lemma base_loop_fails:
  "\<not> 1 < length DP \<Longrightarrow> js \<noteq> [] \<Longrightarrow> for_each (base_body cost) js (DP, choice) = Inl IndexError"
  by (cases js) (simp_all add: base_body_def)

lemma dp_cell_below: "j < t \<Longrightarrow> 1 \<le> t \<Longrightarrow> dp_cell cost t j = (InfV, - 1)"
  by (cases t) auto

lemma dp_filledI:
  assumes "tab_dims (k + 1) (n + 1) DP" "tab_dims (k + 1) (n + 1) choice"
    and "\<And>t' j'. t' \<le> k \<Longrightarrow> j' \<le> n \<Longrightarrow>
           DP ! t' ! j' = (if t' < t \<or> (t' = t \<and> j' \<le> J) then fst (dp_cell cost t' j') else InfV)
         \<and> choice ! t' ! j' = (if t' < t \<or> (t' = t \<and> j' \<le> J) then snd (dp_cell cost t' j') else - 1)"
  shows "dp_filled n k cost t J (DP, choice)"
  unfolding dp_filled_def using assms by (auto simp: prod_eq_iff)

lemma dp_filledD:
  assumes "dp_filled n k cost t J (DP, choice)"
  shows "tab_dims (k + 1) (n + 1) DP" "tab_dims (k + 1) (n + 1) choice"
    and "t' \<le> k \<Longrightarrow> j' \<le> n \<Longrightarrow>
           DP ! t' ! j' = (if t' < t \<or> (t' = t \<and> j' \<le> J) then fst (dp_cell cost t' j') else InfV)"
    and "t' \<le> k \<Longrightarrow> j' \<le> n \<Longrightarrow>
           choice ! t' ! j' = (if t' < t \<or> (t' = t \<and> j' \<le> J) then snd (dp_cell cost t' j') else - 1)"
proof -
  show "tab_dims (k + 1) (n + 1) DP" "tab_dims (k + 1) (n + 1) choice"
    using assms by (simp_all add: dp_filled_def)
  have p: "(DP ! t' ! j', choice ! t' ! j')
        = (if t' < t \<or> (t' = t \<and> j' \<le> J) then dp_cell cost t' j' else (InfV, - 1))"
    if "t' \<le> k" "j' \<le> n"
    using assms that unfolding dp_filled_def by simp
  show "DP ! t' ! j' = (if t' < t \<or> (t' = t \<and> j' \<le> J) then fst (dp_cell cost t' j') else InfV)"
    if "t' \<le> k" "j' \<le> n"
    using p [OF that] by (simp add: prod_eq_iff split: if_splits)
  show "choice ! t' ! j' = (if t' < t \<or> (t' = t \<and> j' \<le> J) then snd (dp_cell cost t' j') else - 1)"
    if "t' \<le> k" "j' \<le> n"
    using p [OF that] by (simp add: prod_eq_iff split: if_splits)
qed

lemma upd2_replicate_nth:
  "i < r \<Longrightarrow> j < c \<Longrightarrow> i' < r \<Longrightarrow> j' < c \<Longrightarrow>
   upd2 (replicate r (replicate c v)) i j x ! i' ! j' = (if i' = i \<and> j' = j then x else v)"
  using upd2_nth [OF tab_dims_replicate, of i r j c v x i' j'] by simp

lemma dp_filled_init:
  "dp_filled n k cost 0 n
     (dp_base0 (replicate (k + 1) (replicate (n + 1) InfV), replicate (k + 1) (replicate (n + 1) (- 1))))"
proof -
  have d: "tab_dims (k + 1) (n + 1) (upd2 (replicate (k + 1) (replicate (n + 1) InfV)) 0 0 (IntV 0))"
    by (rule tab_dims_upd2 [OF tab_dims_replicate])
  have c: "tab_dims (k + 1) (n + 1) (replicate (k + 1) (replicate (n + 1) (- 1 :: int)))"
    by (rule tab_dims_replicate)
  have "dp_filled n k cost 0 n
     (upd2 (replicate (k + 1) (replicate (n + 1) InfV)) 0 0 (IntV 0),
      replicate (k + 1) (replicate (n + 1) (- 1)))"
  proof (rule dp_filledI [OF d c])
    fix t' j' assume "t' \<le> k" "j' \<le> n"
    then show "upd2 (replicate (k + 1) (replicate (n + 1) InfV)) 0 0 (IntV 0) ! t' ! j'
          = (if t' < 0 \<or> (t' = 0 \<and> j' \<le> n) then fst (dp_cell cost t' j') else InfV)
        \<and> replicate (k + 1) (replicate (n + 1) (- 1)) ! t' ! j'
          = (if t' < 0 \<or> (t' = 0 \<and> j' \<le> n) then snd (dp_cell cost t' j') else - 1)"
      by (auto simp: upd2_replicate_nth simp del: replicate_Suc)
  qed
  then show ?thesis by (simp only: dp_base0_def prod.case)
qed

lemma dp_filled_base:
  assumes "dp_filled n k cost 0 n (DP, choice)" "1 \<le> k"
  shows "\<exists>tabs. for_each (base_body cost) [1..<n + 1] (DP, choice) = Inr tabs
               \<and> dp_filled n k cost 1 n tabs"
proof -
  note d = dp_filledD(1,2) [OF assms(1)]
  have l: "1 < length DP" using d(1) assms(2) by (simp add: tab_dims_def)
  let ?DP = "fold (\<lambda>j tab. upd2 tab 1 j (IntV (cost ! 1 ! j))) [1..<n + 1] DP"
  let ?ch = "fold (\<lambda>j tab. upd2 tab 1 j (0::int)) [1..<n + 1] choice"
  have k1: "1 < k + 1" using assms(2) by simp
  have b: "\<forall>j\<in>set [1..<n + 1]. j < n + 1" by auto
  have "dp_filled n k cost 1 n (?DP, ?ch)"
  proof (rule dp_filledI [OF fill_row_dims [OF d(1)] fill_row_dims [OF d(2)]])
    fix t' j' assume tj: "t' \<le> k" "j' \<le> n"
    have s: "j' \<in> set [1..<n + 1] \<longleftrightarrow> 1 \<le> j'" using tj by auto
    show "?DP ! t' ! j' = (if t' < 1 \<or> (t' = 1 \<and> j' \<le> n) then fst (dp_cell cost t' j') else InfV)
        \<and> ?ch ! t' ! j' = (if t' < 1 \<or> (t' = 1 \<and> j' \<le> n) then snd (dp_cell cost t' j') else - 1)"
      unfolding fill_row_nth [OF d(1) k1 b] fill_row_nth [OF d(2) k1 b] s
      using dp_filledD(3,4) [OF assms(1) tj] tj by (cases "t' = 1") auto
  qed
  then show ?thesis using base_loop_ok [OF l] by blast
qed

lemma dp_filled_next_row:
  assumes "dp_filled n k cost t n (DP, choice)" "1 \<le> t"
  shows "dp_filled n k cost (t + 1) 0 (DP, choice)"
proof (rule dp_filledI [OF dp_filledD(1,2) [OF assms(1)]])
  fix t' j' assume tj: "t' \<le> k" "j' \<le> n"
  have "t' = t + 1 \<and> j' \<le> 0 \<Longrightarrow> dp_cell cost t' j' = (InfV, - 1)"
    using dp_cell_below [of j' t' cost] by simp
  then show "DP ! t' ! j' = (if t' < t + 1 \<or> (t' = t + 1 \<and> j' \<le> 0) then fst (dp_cell cost t' j') else InfV)
        \<and> choice ! t' ! j' = (if t' < t + 1 \<or> (t' = t + 1 \<and> j' \<le> 0) then snd (dp_cell cost t' j') else - 1)"
    using dp_filledD(3,4) [OF assms(1) tj] tj by auto
qed

lemma dp_filled_step:
  assumes inv: "dp_filled n k cost t J (DP, choice)" and t: "2 \<le> t" "t \<le> k" and J: "J < n"
  shows "dp_filled n k cost t (J + 1) (dp_body cost t (J + 1) (DP, choice))"
proof -
  note d = dp_filledD(1,2) [OF inv]
  note old = dp_filledD(3,4) [OF inv]
  show ?thesis
  proof (cases "J + 1 < t")
    case True
    have c: "dp_cell cost t (J + 1) = (InfV, - 1)" using True t by (simp add: dp_cell_below)
    have "dp_filled n k cost t (J + 1) (DP, choice)"
    proof (rule dp_filledI [OF d])
      fix t' j' assume tj: "t' \<le> k" "j' \<le> n"
      show "DP ! t' ! j' = (if t' < t \<or> (t' = t \<and> j' \<le> J + 1) then fst (dp_cell cost t' j') else InfV)
        \<and> choice ! t' ! j' = (if t' < t \<or> (t' = t \<and> j' \<le> J + 1) then snd (dp_cell cost t' j') else - 1)"
        using old [OF tj] c by (cases "t' = t \<and> j' = J + 1") (auto simp: le_Suc_eq)
    qed
    then show ?thesis using True by (simp add: dp_body_def)
  next
    case False
    have prev: "\<forall>i. t - 1 \<le> i \<and> i < J + 1 \<longrightarrow> DP ! (t - 1) ! i = fst (dp_cell cost (t - 1) i)"
    proof (intro allI impI)
      fix i assume i: "t - 1 \<le> i \<and> i < J + 1"
      show "DP ! (t - 1) ! i = fst (dp_cell cost (t - 1) i)"
        using old(1) [of "t - 1" i] i t J by simp
    qed
    have cellv: "dp_cell cost t (J + 1) = scan_row (\<lambda>i. fst (dp_cell cost (t - 1) i)) cost t (J + 1)"
      using False t by (cases t) auto
    have scan: "dp_scan DP cost t (J + 1) = dp_cell cost t (J + 1)"
      unfolding dp_scan_scan_row cellv by (rule scan_row_cong [OF prev])
    obtain bv bi where b: "dp_cell cost t (J + 1) = (bv, bi)" by (cases "dp_cell cost t (J + 1)")
    have body: "dp_body cost t (J + 1) (DP, choice) = (upd2 DP t (J + 1) bv, upd2 choice t (J + 1) bi)"
      using False unfolding dp_body_def prod.case scan b by simp
    have tk: "t < k + 1" "J + 1 < n + 1" using t J by simp_all
    show ?thesis
      unfolding body
    proof (rule dp_filledI [OF tab_dims_upd2 [OF d(1)] tab_dims_upd2 [OF d(2)]])
      fix t' j' assume tj: "t' \<le> k" "j' \<le> n"
      show "upd2 DP t (J + 1) bv ! t' ! j'
            = (if t' < t \<or> (t' = t \<and> j' \<le> J + 1) then fst (dp_cell cost t' j') else InfV)
        \<and> upd2 choice t (J + 1) bi ! t' ! j'
            = (if t' < t \<or> (t' = t \<and> j' \<le> J + 1) then snd (dp_cell cost t' j') else - 1)"
        unfolding upd2_nth [OF d(1) tk] upd2_nth [OF d(2) tk]
        using old [OF tj] b by (cases "t' = t \<and> j' = J + 1") (auto simp: le_Suc_eq)
    qed
  qed
qed

lemma dp_filled_row_prefix:
  assumes "dp_filled n k cost t 0 tabs" "2 \<le> t" "t \<le> k"
  shows "J \<le> n \<Longrightarrow> dp_filled n k cost t J (fold (dp_body cost t) [1..<J + 1] tabs)"
proof (induction J)
  case 0
  then show ?case using assms(1) by simp
next
  case (Suc J)
  then have ih: "dp_filled n k cost t J (fold (dp_body cost t) [1..<J + 1] tabs)" by simp
  have "J < n" using Suc.prems by simp
  obtain DP choice where e: "fold (dp_body cost t) [1..<J + 1] tabs = (DP, choice)"
    by (cases "fold (dp_body cost t) [1..<J + 1] tabs")
  from dp_filled_step [OF ih [unfolded e] assms(2,3) \<open>J < n\<close>] e show ?case by simp
qed

lemma dp_filled_rows:
  assumes "dp_filled n k cost 1 n tabs"
  shows "T \<le> k \<Longrightarrow> 1 \<le> T \<Longrightarrow>
         dp_filled n k cost T n (fold (\<lambda>t. fold (dp_body cost t) [1..<n + 1]) [2..<T + 1] tabs)"
proof (induction T)
  case 0
  then show ?case by simp
next
  case (Suc T)
  show ?case
  proof (cases "T = 0")
    case True
    then show ?thesis using assms by simp
  next
    case False
    then have ih: "dp_filled n k cost T n (fold (\<lambda>t. fold (dp_body cost t) [1..<n + 1]) [2..<T + 1] tabs)"
      using Suc by simp
    have "dp_filled n k cost (T + 1) 0 (fold (\<lambda>t. fold (dp_body cost t) [1..<n + 1]) [2..<T + 1] tabs)"
      using dp_filled_next_row [of n k cost T] ih False
      by (cases "fold (\<lambda>t. fold (dp_body cost t) [1..<n + 1]) [2..<T + 1] tabs") simp
    from dp_filled_row_prefix [OF this, of n] Suc.prems False
    have "dp_filled n k cost (T + 1) n
            (fold (dp_body cost (T + 1)) [1..<n + 1]
               (fold (\<lambda>t. fold (dp_body cost t) [1..<n + 1]) [2..<T + 1] tabs))"
      by simp
    moreover have "[2..<Suc T + 1] = [2..<T + 1] @ [T + 1]" using False by simp
    ultimately show ?thesis by simp
  qed
qed

lemma dp_stage_ok:
  assumes "1 \<le> k"
  shows "\<exists>DP choice.
           dp_stage n k cost
             (replicate (k + 1) (replicate (n + 1) InfV), replicate (k + 1) (replicate (n + 1) (- 1)))
             = Inr (DP, choice)
         \<and> dp_filled n k cost k n (DP, choice)"
proof -
  let ?t0 = "dp_base0 (replicate (k + 1) (replicate (n + 1) InfV), replicate (k + 1) (replicate (n + 1) (- 1)))"
  obtain DP0 ch0 where t0: "?t0 = (DP0, ch0)" by (cases ?t0)
  have "dp_filled n k cost 0 n (DP0, ch0)" using dp_filled_init [of n k cost] t0 by simp
  from dp_filled_base [OF this assms] obtain tabs where
    b: "for_each (base_body cost) [1..<n + 1] ?t0 = Inr tabs" "dp_filled n k cost 1 n tabs"
    using t0 by auto
  have "dp_filled n k cost k n (dp_rows n k cost tabs)"
    unfolding dp_rows_def using dp_filled_rows [OF b(2), of k] assms by simp
  moreover have "dp_stage n k cost
             (replicate (k + 1) (replicate (n + 1) InfV), replicate (k + 1) (replicate (n + 1) (- 1)))
             = Inr (dp_rows n k cost tabs)"
    unfolding dp_stage_def b(1) by simp
  ultimately show ?thesis by (cases "dp_rows n k cost tabs") auto
qed

text \<open>The scan over the split points: the smallest value, at its first position.\<close>

lemma scan_fold_min:
  assumes "\<forall>i. a \<le> i \<and> i < b \<longrightarrow> g i = IntV (h i)"
  shows "a < b \<Longrightarrow>
    \<exists>i0. fold (\<lambda>i b. case b of (best_val, best_i) \<Rightarrow>
                 (let val = g i in if cell_less val best_val then (val, int i) else (best_val, best_i)))
            [a..<b] (InfV, - 1) = (IntV (h i0), int i0)
        \<and> a \<le> i0 \<and> i0 < b
        \<and> (\<forall>i. a \<le> i \<and> i < b \<longrightarrow> h i0 \<le> h i)
        \<and> (\<forall>i. a \<le> i \<and> i < i0 \<longrightarrow> h i0 < h i)"
  using assms
proof (induction b)
  case 0
  then show ?case by simp
next
  case (Suc b)
  let ?f = "\<lambda>i b. case b of (best_val, best_i) \<Rightarrow>
                 (let val = g i in if cell_less val best_val then (val, int i) else (best_val, best_i))"
  show ?case
  proof (cases "a = b")
    case True
    have "g b = IntV (h b)" using Suc.prems True by simp
    then have "fold ?f [a..<Suc b] (InfV, - 1) = (IntV (h b), int b)" using True by simp
    then show ?thesis using True by (intro exI [of _ b]) (auto simp: less_Suc_eq)
  next
    case False
    then have ab: "a < b" using Suc.prems by simp
    have "\<forall>i. a \<le> i \<and> i < b \<longrightarrow> g i = IntV (h i)" using Suc.prems by simp
    from Suc.IH [OF ab this] obtain i0 where i0:
      "fold ?f [a..<b] (InfV, - 1) = (IntV (h i0), int i0)" "a \<le> i0" "i0 < b"
      "\<forall>i. a \<le> i \<and> i < b \<longrightarrow> h i0 \<le> h i" "\<forall>i. a \<le> i \<and> i < i0 \<longrightarrow> h i0 < h i"
      by blast
    have gb: "g b = IntV (h b)" using Suc.prems ab by simp
    have step: "fold ?f [a..<Suc b] (InfV, - 1) = ?f b (IntV (h i0), int i0)"
      using ab i0(1) by simp
    show ?thesis
    proof (cases "h b < h i0")
      case True
      have "fold ?f [a..<Suc b] (InfV, - 1) = (IntV (h b), int b)"
        unfolding step using True gb by simp
      moreover have "\<forall>i. a \<le> i \<and> i < Suc b \<longrightarrow> h b \<le> h i"
        using i0(4) True by (auto simp: less_Suc_eq)
      moreover have "\<forall>i. a \<le> i \<and> i < b \<longrightarrow> h b < h i"
        using i0(4) True by (metis less_le_trans)
      ultimately show ?thesis using ab by (intro exI [of _ b]) auto
    next
      case False
      have "fold ?f [a..<Suc b] (InfV, - 1) = (IntV (h i0), int i0)"
        unfolding step using False gb by simp
      moreover have "\<forall>i. a \<le> i \<and> i < Suc b \<longrightarrow> h i0 \<le> h i"
        using i0(4) False by (auto simp: less_Suc_eq)
      ultimately show ?thesis using i0(2,3,5) by (intro exI [of _ i0]) auto
    qed
  qed
qed

lemma scan_row_min:
  assumes "\<forall>i. t - 1 \<le> i \<and> i < j \<longrightarrow> prev i = IntV (d i)" and "t - 1 < j"
  shows "\<exists>i0. scan_row prev cost t j = (IntV (d i0 + cost ! (i0 + 1) ! j), int i0)
        \<and> t - 1 \<le> i0 \<and> i0 < j
        \<and> (\<forall>i. t - 1 \<le> i \<and> i < j \<longrightarrow> d i0 + cost ! (i0 + 1) ! j \<le> d i + cost ! (i + 1) ! j)
        \<and> (\<forall>i. t - 1 \<le> i \<and> i < i0 \<longrightarrow> d i0 + cost ! (i0 + 1) ! j < d i + cost ! (i + 1) ! j)"
proof -
  have g: "\<forall>i. t - 1 \<le> i \<and> i < j \<longrightarrow>
             cell_add (prev i) (cost ! (i + 1) ! j) = IntV (d i + cost ! (i + 1) ! j)"
    using assms(1) by simp
  show ?thesis
    unfolding scan_row_def
    using scan_fold_min [of "t - 1" j "\<lambda>i. cell_add (prev i) (cost ! (i + 1) ! j)"
        "\<lambda>i. d i + cost ! (i + 1) ! j", OF g assms(2)]
    by simp
qed

text \<open>Whatever the previous row holds, the scan returns \<open>-1\<close> or a split point of its range.\<close>

lemma scan_fold_range:
  "snd (fold (\<lambda>i b. case b of (best_val, best_i) \<Rightarrow>
                 (let val = g i in if cell_less val best_val then (val, int i) else (best_val, best_i)))
            xs (bv, bi)) \<in> insert bi (int ` set xs)"
proof (induction xs arbitrary: bv bi)
  case Nil
  then show ?case by simp
next
  case (Cons x xs)
  show ?case
  proof (cases "cell_less (g x) bv")
    case True
    then show ?thesis using Cons.IH [of "g x" "int x"] by auto
  next
    case False
    then show ?thesis using Cons.IH [of bv bi] by auto
  qed
qed

lemma scan_row_range:
  "snd (scan_row prev cost t j) = - 1
   \<or> (\<exists>i. t - 1 \<le> i \<and> i < j \<and> snd (scan_row prev cost t j) = int i)"
  unfolding scan_row_def
  using scan_fold_range [of "\<lambda>i. cell_add (prev i) (cost ! (i + 1) ! j)" "[t - 1..<j]" InfV "- 1"]
  by auto

text \<open>The cells of a feasible position hold integers, so the recurrence never adds
  anything to \<^verbatim>\<open>inf\<close>.\<close>

lemma dp_cell_int: "1 \<le> t \<Longrightarrow> t \<le> j \<Longrightarrow> \<exists>v. fst (dp_cell cost t j) = IntV v"
proof (induction t arbitrary: j)
  case 0
  then show ?case by simp
next
  case (Suc t)
  show ?case
  proof (cases "t = 0")
    case True
    then show ?thesis using Suc.prems by simp
  next
    case False
    have p: "\<forall>i. Suc t - 1 \<le> i \<and> i < j \<longrightarrow>
               fst (dp_cell cost t i) = IntV (int_of_cell (fst (dp_cell cost t i)))"
    proof (intro allI impI)
      fix i assume "Suc t - 1 \<le> i \<and> i < j"
      then obtain v where "fst (dp_cell cost t i) = IntV v" using Suc.IH [of i] False by auto
      then show "fst (dp_cell cost t i) = IntV (int_of_cell (fst (dp_cell cost t i)))" by simp
    qed
    have "Suc t - 1 < j" using Suc.prems by simp
    from scan_row_min [OF p this, of cost] show ?thesis
      using False Suc.prems by auto
  qed
qed

lemma dp_cell_IntV:
  "1 \<le> t \<Longrightarrow> t \<le> j \<Longrightarrow> fst (dp_cell cost t j) = IntV (int_of_cell (fst (dp_cell cost t j)))"
  using dp_cell_int [of t j cost] by auto

text \<open>The recurrence, on the integers the cells hold.\<close>

lemma dp_cell_rec:
  assumes "2 \<le> t" "t \<le> j"
  shows "\<exists>i0. dp_cell cost t j
            = (IntV (int_of_cell (fst (dp_cell cost (t - 1) i0)) + cost ! (i0 + 1) ! j), int i0)
        \<and> t - 1 \<le> i0 \<and> i0 < j
        \<and> (\<forall>i. t - 1 \<le> i \<and> i < j \<longrightarrow>
               int_of_cell (fst (dp_cell cost (t - 1) i0)) + cost ! (i0 + 1) ! j
                 \<le> int_of_cell (fst (dp_cell cost (t - 1) i)) + cost ! (i + 1) ! j)
        \<and> (\<forall>i. t - 1 \<le> i \<and> i < i0 \<longrightarrow>
               int_of_cell (fst (dp_cell cost (t - 1) i0)) + cost ! (i0 + 1) ! j
                 < int_of_cell (fst (dp_cell cost (t - 1) i)) + cost ! (i + 1) ! j)"
proof -
  obtain t' where t': "t = Suc t'" "t' \<noteq> 0" using assms(1) by (cases t) auto
  have p: "\<forall>i. t - 1 \<le> i \<and> i < j \<longrightarrow>
             fst (dp_cell cost (t - 1) i) = IntV (int_of_cell (fst (dp_cell cost (t - 1) i)))"
    using dp_cell_IntV [of "t - 1" _ cost] assms(1) by auto
  have l: "t - 1 < j" using assms by simp
  have c: "dp_cell cost t j = scan_row (\<lambda>i. fst (dp_cell cost (t - 1) i)) cost t j"
    using t' assms(2) by simp
  show ?thesis unfolding c using scan_row_min [OF p l, of cost] by simp
qed

text \<open>Every entry of \<^verbatim>\<open>choice\<close> is \<open>-1\<close> or an index below its column.\<close>

lemma dp_cell_choice_range:
  "snd (dp_cell cost t j) = - 1 \<or> (0 \<le> snd (dp_cell cost t j) \<and> snd (dp_cell cost t j) < int j)"
proof (cases t)
  case 0
  then show ?thesis by simp
next
  case (Suc t')
  show ?thesis
  proof (cases "t' = 0 \<or> j < Suc t'")
    case True
    then show ?thesis using Suc by auto
  next
    case False
    then have c: "dp_cell cost t j = scan_row (\<lambda>i. fst (dp_cell cost t' i)) cost t j"
      using Suc by simp
    show ?thesis unfolding c
      using scan_row_range [of "\<lambda>i. fst (dp_cell cost t' i)" cost t j] by auto
  qed
qed

section \<open>Backtracking and the returned triple\<close>

lemma py_get_nat: "i < length xs \<Longrightarrow> py_get xs (int i) = Inr (xs ! i)"
  by (simp add: py_get_def Let_def)

lemma py_get_last: "xs \<noteq> [] \<Longrightarrow> py_get xs (- 1) = Inr (xs ! (length xs - 1))"
  by (cases xs) (simp_all add: py_get_def Let_def nat_diff_distrib)

lemma py_get2_nat:
  "tab_dims r c tab \<Longrightarrow> i < r \<Longrightarrow> j < c \<Longrightarrow> py_get2 tab (int i) (int j) = Inr (tab ! i ! j)"
  by (simp add: py_get2_def py_get_nat tab_dims_length tab_dims_row)

lemma py_get2_last:
  "tab_dims r c tab \<Longrightarrow> i < r \<Longrightarrow> 0 < c \<Longrightarrow> py_get2 tab (int i) (- 1) = Inr (tab ! i ! (c - 1))"
  using py_get_last [of "tab ! i"] tab_dims_row [of r c tab i]
  by (auto simp: py_get2_def py_get_nat tab_dims_length)

lemma covers_snoc:
  "covers (segs @ [(L, R)]) lo hi \<longleftrightarrow> covers segs lo (L - 1) \<and> L \<le> R \<and> R = hi"
  by (induction segs lo hi rule: covers.induct) auto

text \<open>The backtracking loop never reads outside its table: the column it reads is
  between \<open>-1\<close> and \<open>n\<close>.\<close>

lemma backtrack_total:
  assumes f: "dp_filled n k cost k n (DP, choice)"
  shows "t \<le> k \<Longrightarrow> - 1 \<le> j \<Longrightarrow> j \<le> int n \<Longrightarrow>
         \<exists>xs. backtrack choice t j segs = Inr (segs @ xs) \<and> length xs = t
            \<and> (\<forall>(L, R)\<in>set xs. 0 \<le> L \<and> R \<le> int n)"
proof (induction t arbitrary: j segs)
  case 0
  then show ?case by simp
next
  case (Suc t)
  note d = dp_filledD(2) [OF f]
  define j' where "j' = (if j = - 1 then n else nat j)"
  have j': "j' \<le> n" using Suc.prems by (auto simp: j'_def)
  have get: "py_get2 choice (int (Suc t)) j = Inr (choice ! Suc t ! j')"
  proof (cases "j = - 1")
    case True
    then show ?thesis using py_get2_last [OF d, of "Suc t"] Suc.prems(1) by (simp add: j'_def)
  next
    case False
    then have "j = int (nat j)" "nat j < n + 1" using Suc.prems by simp_all
    then show ?thesis using py_get2_nat [OF d, of "Suc t" "nat j"] Suc.prems(1) False
      by (simp add: j'_def)
  qed
  define c where "c = choice ! Suc t ! j'"
  have cv: "c = snd (dp_cell cost (Suc t) j')"
    using dp_filledD(4) [OF f, of "Suc t" j'] Suc.prems(1) j' by (simp add: c_def)
  have cr: "- 1 \<le> c" "c \<le> int n" "0 \<le> c + 1"
    using dp_cell_choice_range [of cost "Suc t" j'] j' unfolding cv by auto
  from Suc.IH [of c "segs @ [(c + 1, j)]"] Suc.prems(1) cr
  obtain xs where xs: "backtrack choice t c (segs @ [(c + 1, j)]) = Inr ((segs @ [(c + 1, j)]) @ xs)"
    "length xs = t" "\<forall>(L, R)\<in>set xs. 0 \<le> L \<and> R \<le> int n"
    by auto
  show ?case
    using xs cr Suc.prems(3) get
    by (intro exI [of _ "(c + 1, j) # xs"]) (simp add: c_def)
qed

lemma server_positions_total:
  assumes d: "tab_dims (n + 1) (n + 1) best_server"
  shows "\<forall>(L, R)\<in>set segs. 0 \<le> L \<and> R \<le> int n \<Longrightarrow>
         \<exists>ps. server_positions_of best_server segs = Inr ps \<and> length ps = length segs"
proof (induction segs)
  case Nil
  then show ?case by simp
next
  case (Cons seg segs)
  obtain L R where seg: "seg = (L, R)" by (cases seg)
  from Cons obtain ps where ps: "server_positions_of best_server segs = Inr ps"
    "length ps = length segs" by auto
  show ?case
  proof (cases "L \<le> R")
    case True
    then have "L = int (nat L)" "R = int (nat R)" "nat L < n + 1" "nat R < n + 1"
      using Cons.prems seg by auto
    then have "py_get2 best_server L R = Inr (best_server ! nat L ! nat R)"
      using py_get2_nat [OF d, of "nat L" "nat R"] by simp
    then show ?thesis using True ps seg by simp
  next
    case False
    then show ?thesis using ps seg by simp
  qed
qed

text \<open>With at most as many servers as clients, backtracking from a feasible cell yields
  segments that cover the prefix and whose costs add up to the cell.\<close>

lemma backtrack_feasible:
  assumes f: "dp_filled n k cost k n (DP, choice)"
  shows "t \<le> k \<Longrightarrow> t \<le> j \<Longrightarrow> j \<le> n \<Longrightarrow> (t = 0 \<longrightarrow> j = 0) \<Longrightarrow>
         \<exists>xs. backtrack choice t (int j) segs = Inr (segs @ xs) \<and> length xs = t
            \<and> covers (rev xs) 1 (int j)
            \<and> (t = 0 \<or> fst (dp_cell cost t j) = IntV (\<Sum>(L, R)\<leftarrow>xs. cost ! nat L ! nat R))"
proof (induction t arbitrary: j segs)
  case 0
  then show ?case by simp
next
  case (Suc t)
  note d = dp_filledD(2) [OF f]
  have get: "py_get2 choice (int (Suc t)) (int j) = Inr (snd (dp_cell cost (Suc t) j))"
    using py_get2_nat [OF d, of "Suc t" j] dp_filledD(4) [OF f, of "Suc t" j] Suc.prems by simp
  show ?case
  proof (cases "t = 0")
    case True
    have "dp_cell cost (Suc t) j = (IntV (cost ! 1 ! j), 0)" using True Suc.prems by simp
    then show ?thesis using get True Suc.prems
      by (intro exI [of _ "[(1, int j)]"]) simp
  next
    case False
    from dp_cell_rec [of "Suc t" j cost] False Suc.prems
    obtain i0 where i0: "dp_cell cost (Suc t) j
            = (IntV (int_of_cell (fst (dp_cell cost t i0)) + cost ! (i0 + 1) ! j), int i0)"
      "t \<le> i0" "i0 < j"
      by auto
    from Suc.IH [of i0 "segs @ [(int i0 + 1, int j)]"] i0(2,3) Suc.prems False
    obtain xs where xs:
      "backtrack choice t (int i0) (segs @ [(int i0 + 1, int j)]) = Inr ((segs @ [(int i0 + 1, int j)]) @ xs)"
      "length xs = t" "covers (rev xs) 1 (int i0)"
      "fst (dp_cell cost t i0) = IntV (\<Sum>(L, R)\<leftarrow>xs. cost ! nat L ! nat R)"
      by auto
    have n1: "nat (int i0 + 1) = i0 + 1" by simp
    show ?thesis
      using xs i0 get
      by (intro exI [of _ "(int i0 + 1, int j) # xs"]) (simp add: covers_snoc n1 del: of_nat_add)
  qed
qed

lemma covers_indexed:
  "covers segs lo hi \<Longrightarrow> segs \<noteq> [] \<Longrightarrow>
     fst (segs ! 0) = lo \<and> snd (segs ! (length segs - 1)) = hi
   \<and> (\<forall>m<length segs. fst (segs ! m) \<le> snd (segs ! m))
   \<and> (\<forall>m. m + 1 < length segs \<longrightarrow> snd (segs ! m) + 1 = fst (segs ! (m + 1)))"
proof (induction segs lo hi rule: covers.induct)
  case (1 lo hi)
  then show ?case by simp
next
  case (2 L R segs lo hi)
  show ?case
  proof (cases "segs = []")
    case True
    then show ?thesis using 2 by simp
  next
    case False
    have ih: "fst (segs ! 0) = R + 1" "snd (segs ! (length segs - 1)) = hi"
      "\<forall>m<length segs. fst (segs ! m) \<le> snd (segs ! m)"
      "\<forall>m. m + 1 < length segs \<longrightarrow> snd (segs ! m) + 1 = fst (segs ! (m + 1))"
      using 2 False by simp_all
    have a: "\<forall>m<length ((L, R) # segs). fst (((L, R) # segs) ! m) \<le> snd (((L, R) # segs) ! m)"
      using ih(3) 2(2) by (auto simp: nth_Cons split: nat.splits)
    have b: "\<forall>m. m + 1 < length ((L, R) # segs) \<longrightarrow>
            snd (((L, R) # segs) ! m) + 1 = fst (((L, R) # segs) ! (m + 1))"
      using ih(1,4) by (auto simp: nth_Cons split: nat.splits)
    have c: "snd (((L, R) # segs) ! (length ((L, R) # segs) - 1)) = hi"
      using ih(2) False by (simp add: nth_Cons split: nat.splits) (metis Suc_pred length_greater_0_conv nat.inject)
    show ?thesis using a b c 2(2) by simp
  qed
qed

text \<open>With at least one server and a list that holds the entries \<open>0..n\<close>, the function
  returns: the cost is cell \<open>(k, n)\<close>, and there are \<open>k\<close> segments and \<open>k\<close> positions.\<close>

lemma frks_run:
  assumes w: "n < length w" and k: "1 \<le> k"
  shows "\<exists>cost best_server DP choice xs ps.
       interval_tables n w
         (replicate (n + 1) (replicate (n + 1) 0), replicate (n + 1) (replicate (n + 1) 0))
         = Inr (w, cost, best_server)
     \<and> dp_stage n k cost
         (replicate (k + 1) (replicate (n + 1) InfV), replicate (k + 1) (replicate (n + 1) (- 1)))
         = Inr (DP, choice)
     \<and> dp_filled n k cost k n (DP, choice)
     \<and> backtrack choice k (int n) [] = Inr xs \<and> length xs = k \<and> length ps = k
     \<and> fast_response_k_server n k w = Inr (fst (dp_cell cost k n), ps, rev xs)"
proof -
  from interval_tables_ok [of n w] w obtain cost best_server where it:
    "interval_tables n w
       (replicate (n + 1) (replicate (n + 1) 0), replicate (n + 1) (replicate (n + 1) 0))
       = Inr (w, cost, best_server)"
    "tab_dims (n + 1) (n + 1) best_server"
    by blast
  from dp_stage_ok [OF k, of n cost] obtain DP choice where dp:
    "dp_stage n k cost
       (replicate (k + 1) (replicate (n + 1) InfV), replicate (k + 1) (replicate (n + 1) (- 1)))
       = Inr (DP, choice)"
    "dp_filled n k cost k n (DP, choice)"
    by blast
  have get: "py_get2 DP (int k) (int n) = Inr (fst (dp_cell cost k n))"
    using py_get2_nat [OF dp_filledD(1) [OF dp(2)], of k n] dp_filledD(3) [OF dp(2), of k n]
    by simp
  from backtrack_total [OF dp(2), of k "int n" "[]"] obtain xs where xs:
    "backtrack choice k (int n) [] = Inr xs" "length xs = k"
    "\<forall>(L, R)\<in>set xs. 0 \<le> L \<and> R \<le> int n"
    by auto
  from server_positions_total [OF it(2), of "rev xs"] xs(3) obtain ps where ps:
    "server_positions_of best_server (rev xs) = Inr ps" "length ps = length xs"
    by auto
  have "fast_response_k_server n k w = Inr (fst (dp_cell cost k n), ps, rev xs)"
    unfolding fast_response_k_server_def fast_response_k_server_run_def pipeline_def
      it(1) bindE_Inr prod.case dp(1) get xs(1) Let_def ps(1)
    by simp
  then show ?thesis using it(1) dp xs(1,2) ps(2) by blast
qed

section \<open>Properties of the dynamic program and of the reconstruction\<close>

text \<open>
  C2: for \<open>2 \<le> t \<le> k\<close> and \<open>t \<le> j \<le> n\<close>, on the tables the DP stage returns: every
  cell \<^verbatim>\<open>DP[t-1][i]\<close> with \<open>i\<close> in \<open>t-1..j-1\<close> holds an integer \<open>d i\<close>; \<^verbatim>\<open>DP[t][j]\<close>
  is the integer minimum of \<open>d i + cost[i+1][j]\<close> over that range; \<^verbatim>\<open>choice[t][j]\<close> is a
  split point \<open>i0\<close> of the range at which the minimum is attained, and every earlier split
  point gives a strictly larger sum, so \<open>i0\<close> is the smallest minimiser.
\<close>

theorem dp_recurrence:
  assumes "n < length w" and "2 \<le> t" and "t \<le> k" and "t \<le> j" and "j \<le> n"
  shows "\<exists>cost best_server DP choice d i0.
       interval_tables n w
         (replicate (n + 1) (replicate (n + 1) 0), replicate (n + 1) (replicate (n + 1) 0))
         = Inr (w, cost, best_server)
     \<and> dp_stage n k cost
         (replicate (k + 1) (replicate (n + 1) InfV), replicate (k + 1) (replicate (n + 1) (- 1)))
         = Inr (DP, choice)
     \<and> (\<forall>i. t - 1 \<le> i \<and> i < j \<longrightarrow> DP ! (t - 1) ! i = IntV (d i))
     \<and> DP ! t ! j = IntV (Min ((\<lambda>i. d i + cost ! (i + 1) ! j) ` {t - 1..<j}))
     \<and> t - 1 \<le> i0 \<and> i0 < j \<and> choice ! t ! j = int i0
     \<and> DP ! t ! j = IntV (d i0 + cost ! (i0 + 1) ! j)
     \<and> (\<forall>i. t - 1 \<le> i \<and> i < j \<longrightarrow> d i0 + cost ! (i0 + 1) ! j \<le> d i + cost ! (i + 1) ! j)
     \<and> (\<forall>i. t - 1 \<le> i \<and> i < i0 \<longrightarrow> d i0 + cost ! (i0 + 1) ! j < d i + cost ! (i + 1) ! j)"
proof -
  have k: "1 \<le> k" using assms by simp
  from frks_run [OF assms(1) k] obtain cost best_server DP choice where r:
    "interval_tables n w
       (replicate (n + 1) (replicate (n + 1) 0), replicate (n + 1) (replicate (n + 1) 0))
       = Inr (w, cost, best_server)"
    "dp_stage n k cost
       (replicate (k + 1) (replicate (n + 1) InfV), replicate (k + 1) (replicate (n + 1) (- 1)))
       = Inr (DP, choice)"
    "dp_filled n k cost k n (DP, choice)"
    by blast
  define D where "D i = int_of_cell (fst (dp_cell cost (t - 1) i))" for i
  from dp_cell_rec [OF assms(2,4), of cost] obtain i0 where i0:
    "dp_cell cost t j = (IntV (D i0 + cost ! (i0 + 1) ! j), int i0)" "t - 1 \<le> i0" "i0 < j"
    "\<forall>i. t - 1 \<le> i \<and> i < j \<longrightarrow> D i0 + cost ! (i0 + 1) ! j \<le> D i + cost ! (i + 1) ! j"
    "\<forall>i. t - 1 \<le> i \<and> i < i0 \<longrightarrow> D i0 + cost ! (i0 + 1) ! j < D i + cost ! (i + 1) ! j"
    unfolding D_def by blast
  have cur: "DP ! t ! j = IntV (D i0 + cost ! (i0 + 1) ! j)" "choice ! t ! j = int i0"
    using dp_filledD(3,4) [OF r(3), of t j] assms i0(1) by auto
  have prev: "\<forall>i. t - 1 \<le> i \<and> i < j \<longrightarrow> DP ! (t - 1) ! i = IntV (D i)"
  proof (intro allI impI)
    fix i assume i: "t - 1 \<le> i \<and> i < j"
    have "DP ! (t - 1) ! i = fst (dp_cell cost (t - 1) i)"
      using dp_filledD(3) [OF r(3), of "t - 1" i] assms i by auto
    then show "DP ! (t - 1) ! i = IntV (D i)"
      using dp_cell_IntV [of "t - 1" i cost] assms(2) i by (simp add: D_def)
  qed
  have "Min ((\<lambda>i. D i + cost ! (i + 1) ! j) ` {t - 1..<j}) = D i0 + cost ! (i0 + 1) ! j"
  proof (rule Min_eqI)
    show "finite ((\<lambda>i. D i + cost ! (i + 1) ! j) ` {t - 1..<j})" by simp
    show "D i0 + cost ! (i0 + 1) ! j \<le> y" if "y \<in> (\<lambda>i. D i + cost ! (i + 1) ! j) ` {t - 1..<j}" for y
      using that i0(4) by auto
    show "D i0 + cost ! (i0 + 1) ! j \<in> (\<lambda>i. D i + cost ! (i + 1) ! j) ` {t - 1..<j}"
      using i0(2,3) by auto
  qed
  then have mn: "DP ! t ! j = IntV (Min ((\<lambda>i. D i + cost ! (i + 1) ! j) ` {t - 1..<j}))"
    using cur(1) by simp
  show ?thesis
    using r(1,2) prev mn i0(2,3) cur(2,1) i0(4,5) by blast
qed

theorem dp_recurrence_witness:
  "\<exists>cost best_server DP choice d i0.
       interval_tables 4 [0, 1, 1, 1, 1]
         (replicate (4 + 1) (replicate (4 + 1) 0), replicate (4 + 1) (replicate (4 + 1) 0))
         = Inr ([0, 1, 1, 1, 1], cost, best_server)
     \<and> dp_stage 4 2 cost
         (replicate (2 + 1) (replicate (4 + 1) InfV), replicate (2 + 1) (replicate (4 + 1) (- 1)))
         = Inr (DP, choice)
     \<and> (\<forall>i. 2 - 1 \<le> i \<and> i < 4 \<longrightarrow> DP ! (2 - 1) ! i = IntV (d i))
     \<and> DP ! 2 ! 4 = IntV (Min ((\<lambda>i. d i + cost ! (i + 1) ! 4) ` {2 - 1..<4}))
     \<and> 2 - 1 \<le> i0 \<and> i0 < 4 \<and> choice ! 2 ! 4 = int i0
     \<and> DP ! 2 ! 4 = IntV (d i0 + cost ! (i0 + 1) ! 4)
     \<and> (\<forall>i. 2 - 1 \<le> i \<and> i < 4 \<longrightarrow> d i0 + cost ! (i0 + 1) ! 4 \<le> d i + cost ! (i + 1) ! 4)
     \<and> (\<forall>i. 2 - 1 \<le> i \<and> i < i0 \<longrightarrow> d i0 + cost ! (i0 + 1) ! 4 < d i + cost ! (i + 1) ! 4)"
  using dp_recurrence [of 4 "[0, 1, 1, 1, 1]" 2 2 4] by simp

text \<open>
  C4: for \<open>1 \<le> k \<le> n\<close> the function returns exactly \<open>k\<close> segments \<open>(L, R)\<close>; the first
  starts at 1, the last ends at \<open>n\<close>, none is empty, and each one starts right after the
  one before it ends.
\<close>

theorem segments_partition:
  assumes "1 \<le> k" and "k \<le> n" and "n < length w"
  shows "\<exists>c ps segs. fast_response_k_server n k w = Inr (c, ps, segs)
     \<and> length segs = k
     \<and> fst (segs ! 0) = 1 \<and> snd (segs ! (k - 1)) = int n
     \<and> (\<forall>m<k. fst (segs ! m) \<le> snd (segs ! m))
     \<and> (\<forall>m. m + 1 < k \<longrightarrow> snd (segs ! m) + 1 = fst (segs ! (m + 1)))"
proof -
  from frks_run [OF assms(3,1)] obtain cost DP choice xs ps where r:
    "dp_filled n k cost k n (DP, choice)"
    "backtrack choice k (int n) [] = Inr xs" "length xs = k"
    "fast_response_k_server n k w = Inr (fst (dp_cell cost k n), ps, rev xs)"
    by blast
  from backtrack_feasible [OF r(1), of k n "[]"] assms r(2)
  have cov: "covers (rev xs) 1 (int n)" by auto
  have ne: "rev xs \<noteq> []" using r(3) assms(1) by auto
  from covers_indexed [OF cov ne] r(3,4) show ?thesis by auto
qed

theorem segments_partition_witness:
  "\<exists>c ps segs. fast_response_k_server 4 2 [0, 1, 1, 1, 1] = Inr (c, ps, segs)
     \<and> length segs = 2
     \<and> fst (segs ! 0) = 1 \<and> snd (segs ! (2 - 1)) = int 4
     \<and> (\<forall>m<2. fst (segs ! m) \<le> snd (segs ! m))
     \<and> (\<forall>m. m + 1 < 2 \<longrightarrow> snd (segs ! m) + 1 = fst (segs ! (m + 1)))"
  using segments_partition [of 2 4 "[0, 1, 1, 1, 1]"] by simp

text \<open>
  C6: for \<open>1 \<le> k \<le> n\<close> the returned \<open>min_total_cost\<close> is an integer, and it is the sum of
  \<^verbatim>\<open>cost[L][R]\<close> over the returned segments.
\<close>

theorem segment_costs_sum_to_total:
  assumes "1 \<le> k" and "k \<le> n" and "n < length w"
  shows "\<exists>cost best_server v ps segs.
       interval_tables n w
         (replicate (n + 1) (replicate (n + 1) 0), replicate (n + 1) (replicate (n + 1) 0))
         = Inr (w, cost, best_server)
     \<and> fast_response_k_server n k w = Inr (IntV v, ps, segs)
     \<and> (\<Sum>(L, R)\<leftarrow>segs. cost ! nat L ! nat R) = v"
proof -
  from frks_run [OF assms(3,1)] obtain cost best_server DP choice xs ps where r:
    "interval_tables n w
       (replicate (n + 1) (replicate (n + 1) 0), replicate (n + 1) (replicate (n + 1) 0))
       = Inr (w, cost, best_server)"
    "dp_filled n k cost k n (DP, choice)"
    "backtrack choice k (int n) [] = Inr xs" "length xs = k"
    "fast_response_k_server n k w = Inr (fst (dp_cell cost k n), ps, rev xs)"
    by blast
  from backtrack_feasible [OF r(2), of k n "[]"] assms r(3)
  have v: "fst (dp_cell cost k n) = IntV (\<Sum>(L, R)\<leftarrow>xs. cost ! nat L ! nat R)" by auto
  have "(\<Sum>(L, R)\<leftarrow>rev xs. cost ! nat L ! nat R) = (\<Sum>(L, R)\<leftarrow>xs. cost ! nat L ! nat R)"
    by (simp add: rev_map [symmetric] sum_list_rev)
  with r(1,5) v show ?thesis by auto
qed

theorem segment_costs_sum_to_total_witness:
  "\<exists>cost best_server v ps segs.
       interval_tables 4 [0, 1, 1, 1, 1]
         (replicate (4 + 1) (replicate (4 + 1) 0), replicate (4 + 1) (replicate (4 + 1) 0))
         = Inr ([0, 1, 1, 1, 1], cost, best_server)
     \<and> fast_response_k_server 4 2 [0, 1, 1, 1, 1] = Inr (IntV v, ps, segs)
     \<and> (\<Sum>(L, R)\<leftarrow>segs. cost ! nat L ! nat R) = v"
  using segment_costs_sum_to_total [of 2 4 "[0, 1, 1, 1, 1]"] by simp

text \<open>
  C3: a call with more servers than clients is to raise an error and never to return a
  position list with an absent entry. The function does return there: on \<open>n = 1\<close>,
  \<open>k = 2\<close>, \<open>w = [_, 5]\<close> the cell \<^verbatim>\<open>DP[2][1]\<close> is left at \<^verbatim>\<open>inf\<close>, the backtracking reads
  the unset \<^verbatim>\<open>choice[2][1] = -1\<close> and then \<^verbatim>\<open>choice[1][-1]\<close>, and the result is the cost
  \<^verbatim>\<open>inf\<close> with the segments \<open>[(1,-1), (0,1)]\<close> and the positions \<open>[None, 0]\<close>: the branch
  the source marks as one that should not happen.
\<close>

theorem more_servers_than_clients_run:
  "fast_response_k_server 1 2 [0, 5] = Inr (InfV, [None, Some 0], [(1, - 1), (0, 1)])"
  by code_simp

section \<open>More servers, lower cost\<close>

text \<open>A longer interval never costs less.\<close>

lemma dist_sum_extend:
  assumes "a \<le> b + 1"
  shows "dist_sum w a (b + 1) m = dist_sum w a b m + w ! (b + 1) * \<bar>int (b + 1) - int m\<bar>"
proof -
  have "{a..b + 1} = insert (b + 1) {a..b}" using assms by auto
  then show ?thesis unfolding dist_sum_def by simp
qed

lemma dist_sum_beyond:
  assumes "\<forall>p\<in>{1..n}. 0 \<le> w ! p" "1 \<le> a" "b \<le> n"
  shows "dist_sum w a b b \<le> dist_sum w a b (b + 1)"
  unfolding dist_sum_def
proof (rule sum_mono)
  fix p assume "p \<in> {a..b}"
  then have "0 \<le> w ! p" "\<bar>int p - int b\<bar> \<le> \<bar>int p - int (b + 1)\<bar>" using assms by auto
  then show "w ! p * \<bar>int p - int b\<bar> \<le> w ! p * \<bar>int p - int (b + 1)\<bar>"
    by (rule mult_left_mono [rotated])
qed

lemma interval_cost_mono:
  assumes W: "\<forall>x\<le>n. W ! x = Wsum w x" and XW: "\<forall>x\<le>n. XW ! x = XWsum w x"
    and nonneg: "\<forall>p\<in>{1..n}. 0 \<le> w ! p"
    and ab: "1 \<le> a" "a \<le> b" "b < n"
  shows "snd (interval_cost W XW a b) \<le> snd (interval_cost W XW a (b + 1))"
proof -
  define m where "m = find_weighted_median a (b + 1) W"
  have bn: "b \<le> n" "b + 1 \<le> n" "a \<le> b + 1" using ab by simp_all
  have m: "a \<le> m" "m \<le> b + 1" using fwm_range [OF bn(3), of W] by (simp_all add: m_def)
  have big: "snd (interval_cost W XW a (b + 1)) = dist_sum w a (b + 1) m"
    using interval_cost_dist [OF W XW ab(1) bn(3) bn(2)] by (simp add: m_def)
  have small: "snd (interval_cost W XW a b) \<le> dist_sum w a b c" if "a \<le> c" "c \<le> b" for c
    using interval_cost_dist [OF W XW ab(1,2) bn(1)]
      median_optimal [OF W nonneg ab(1,2) bn(1) that] by simp
  have wb: "0 \<le> w ! (b + 1)" using nonneg bn by simp
  have ext: "dist_sum w a b c \<le> dist_sum w a (b + 1) c" for c
    unfolding dist_sum_extend [OF bn(3)] using wb by simp
  show ?thesis
  proof (cases "m \<le> b")
    case True
    then show ?thesis using small [OF m(1) True] ext [of m] big by simp
  next
    case False
    then have mb: "m = b + 1" using m(2) by simp
    have "snd (interval_cost W XW a b) \<le> dist_sum w a b b" using small [of b] ab by simp
    also have "\<dots> \<le> dist_sum w a b (b + 1)" by (rule dist_sum_beyond [OF nonneg ab(1) bn(1)])
    also have "\<dots> \<le> dist_sum w a (b + 1) (b + 1)" by (rule ext)
    finally show ?thesis using big mb by simp
  qed
qed

text \<open>One more server never costs more, and one more client never costs less.\<close>

lemma dp_cell_mono:
  assumes cm: "\<And>a b. 1 \<le> a \<Longrightarrow> a \<le> b \<Longrightarrow> b < n \<Longrightarrow> cost ! a ! b \<le> cost ! a ! (b + 1)"
    and cd: "\<And>a. 1 \<le> a \<Longrightarrow> a \<le> n \<Longrightarrow> cost ! a ! a = 0"
  shows "j \<le> n \<Longrightarrow>
     (\<forall>t. 1 \<le> t \<and> t < j \<longrightarrow>
        int_of_cell (fst (dp_cell cost (t + 1) j)) \<le> int_of_cell (fst (dp_cell cost t j)))
   \<and> (\<forall>t. 1 \<le> t \<and> t < j \<longrightarrow>
        int_of_cell (fst (dp_cell cost t (j - 1))) \<le> int_of_cell (fst (dp_cell cost t j)))"
proof (induction j)
  case 0
  then show ?case by simp
next
  case (Suc j)
  define D where "D t j = int_of_cell (fst (dp_cell cost t j))" for t j
  have jn: "j < n" "j \<le> n" using Suc.prems by simp_all
  have ihP: "D (t + 1) j \<le> D t j" if "1 \<le> t" "t < j" for t
    using Suc.IH jn that unfolding D_def by blast
  have rec: "\<exists>i0. D t j' = D (t - 1) i0 + cost ! (i0 + 1) ! j' \<and> t - 1 \<le> i0 \<and> i0 < j'
               \<and> (\<forall>i. t - 1 \<le> i \<and> i < j' \<longrightarrow> D t j' \<le> D (t - 1) i + cost ! (i + 1) ! j')"
    if "2 \<le> t" "t \<le> j'" for t j'
    using dp_cell_rec [OF that, of cost] unfolding D_def by auto
  have Q: "D t j \<le> D t (Suc j)" if t: "1 \<le> t" "t < Suc j" for t
  proof (cases "t = 1")
    case True
    then have "D t j = cost ! 1 ! j" "D t (Suc j) = cost ! 1 ! (j + 1)"
      using t unfolding D_def by simp_all
    then show ?thesis using cm [of 1 j] t True jn by simp
  next
    case False
    then have t2: "2 \<le> t" "t \<le> Suc j" "t \<le> j" using t by simp_all
    from rec [OF t2(1,2)] obtain i0 where i0:
      "D t (Suc j) = D (t - 1) i0 + cost ! (i0 + 1) ! Suc j" "t - 1 \<le> i0" "i0 < Suc j"
      by blast
    from rec [OF t2(1,3)] have low: "\<forall>i. t - 1 \<le> i \<and> i < j \<longrightarrow> D t j \<le> D (t - 1) i + cost ! (i + 1) ! j"
      by blast
    show ?thesis
    proof (cases "i0 < j")
      case True
      have "D t j \<le> D (t - 1) i0 + cost ! (i0 + 1) ! j" using low i0(2) True by simp
      also have "cost ! (i0 + 1) ! j \<le> cost ! (i0 + 1) ! (j + 1)"
        using cm [of "i0 + 1" j] True jn by simp
      finally show ?thesis using i0(1) by simp
    next
      case False
      then have e: "i0 = j" using i0(3) by simp
      have "cost ! (j + 1) ! (j + 1) = 0" using cd [of "j + 1"] jn by simp
      then have "D t (Suc j) = D (t - 1) j" using i0(1) e by simp
      moreover have "D (t - 1 + 1) j \<le> D (t - 1) j" using ihP [of "t - 1"] t2 by simp
      ultimately show ?thesis using t2 by simp
    qed
  qed
  have P: "D (t + 1) (Suc j) \<le> D t (Suc j)" if t: "1 \<le> t" "t < Suc j" for t
  proof -
    from rec [of "t + 1" "Suc j"] t
    have "\<forall>i. t \<le> i \<and> i < Suc j \<longrightarrow> D (t + 1) (Suc j) \<le> D t i + cost ! (i + 1) ! Suc j"
      by auto
    then have "D (t + 1) (Suc j) \<le> D t j + cost ! (j + 1) ! Suc j" using t by simp
    moreover have "cost ! (j + 1) ! Suc j = 0" using cd [of "j + 1"] jn by simp
    ultimately show ?thesis using Q [OF t] by simp
  qed
  show ?case using P Q unfolding D_def by simp
qed

lemma dp_cell_mono_servers:
  assumes cm: "\<And>a b. 1 \<le> a \<Longrightarrow> a \<le> b \<Longrightarrow> b < n \<Longrightarrow> cost ! a ! b \<le> cost ! a ! (b + 1)"
    and cd: "\<And>a. 1 \<le> a \<Longrightarrow> a \<le> n \<Longrightarrow> cost ! a ! a = 0"
    and t: "1 \<le> t"
  shows "t \<le> t' \<Longrightarrow> t' \<le> n \<Longrightarrow>
         int_of_cell (fst (dp_cell cost t' n)) \<le> int_of_cell (fst (dp_cell cost t n))"
proof (induction t' rule: nat_induct_at_least)
  case base
  then show ?case by simp
next
  case (Suc t')
  have "int_of_cell (fst (dp_cell cost (t' + 1) n)) \<le> int_of_cell (fst (dp_cell cost t' n))"
    using dp_cell_mono [OF cm cd, of n] Suc t by simp
  then show ?case using Suc by simp
qed

lemma dp_cell_diag:
  assumes cd: "\<And>a. 1 \<le> a \<Longrightarrow> a \<le> n \<Longrightarrow> cost ! a ! a = 0"
  shows "1 \<le> t \<Longrightarrow> t \<le> n \<Longrightarrow> fst (dp_cell cost t t) = IntV 0"
proof (induction t)
  case 0
  then show ?case by simp
next
  case (Suc t)
  show ?case
  proof (cases "t = 0")
    case True
    then show ?thesis using cd [of 1] Suc.prems by simp
  next
    case False
    from dp_cell_rec [of "Suc t" "Suc t" cost] False
    obtain i0 where i0: "dp_cell cost (Suc t) (Suc t)
        = (IntV (int_of_cell (fst (dp_cell cost t i0)) + cost ! (i0 + 1) ! Suc t), int i0)"
      "t \<le> i0" "i0 < Suc t"
      by auto
    then have "i0 = t" by simp
    then show ?thesis using i0(1) Suc False cd [of "Suc t"] by simp
  qed
qed

text \<open>
  C7: for non-negative weights and \<open>1 \<le> t \<le> t' \<le> n\<close>, the cost returned with \<open>t'\<close>
  servers is at most the cost returned with \<open>t\<close> servers, and the cost returned with
  \<open>n\<close> servers is 0.
\<close>

theorem more_servers_never_cost_more:
  assumes "n < length w" and "\<forall>p\<in>{1..n}. 0 \<le> w ! p" and "1 \<le> t" and "t \<le> t'" and "t' \<le> n"
  shows "\<exists>c c' r r' r0.
           fast_response_k_server n t w = Inr (IntV c, r)
         \<and> fast_response_k_server n t' w = Inr (IntV c', r')
         \<and> c' \<le> c
         \<and> fast_response_k_server n n w = Inr (IntV 0, r0)"
proof -
  have n1: "1 \<le> n" "1 \<le> t'" "t \<le> n" using assms by simp_all
  from interval_tables_ok [of n w] assms(1)
  obtain W XW cost best_server where it:
    "interval_tables n w
       (replicate (n + 1) (replicate (n + 1) 0), replicate (n + 1) (replicate (n + 1) 0))
       = Inr (w, cost, best_server)"
    "\<forall>x\<le>n. W ! x = Wsum w x" "\<forall>x\<le>n. XW ! x = XWsum w x"
    "\<forall>i j. 1 \<le> i \<and> i \<le> j \<and> j \<le> n \<longrightarrow>
        cost ! i ! j = snd (interval_cost W XW i j)
      \<and> best_server ! i ! j = int (find_weighted_median i j W)"
    by blast
  have cm: "cost ! a ! b \<le> cost ! a ! (b + 1)" if "1 \<le> a" "a \<le> b" "b < n" for a b
    using interval_cost_mono [OF it(2,3) assms(2) that] it(4) that by simp
  have cd: "cost ! a ! a = 0" if "1 \<le> a" "a \<le> n" for a
    using it(4) that interval_cost_diag [of W XW a] by simp
  have run: "\<exists>r. fast_response_k_server n k w
                 = Inr (IntV (int_of_cell (fst (dp_cell cost k n))), r)" if "1 \<le> k" "k \<le> n" for k
  proof -
    from frks_run [OF assms(1) that(1)] it(1) obtain ps xs where
      "fast_response_k_server n k w = Inr (fst (dp_cell cost k n), ps, rev xs)"
      by auto
    then show ?thesis using dp_cell_IntV [OF that, of cost] by auto
  qed
  from run [OF assms(3) n1(3)] obtain r where r:
    "fast_response_k_server n t w = Inr (IntV (int_of_cell (fst (dp_cell cost t n))), r)" by blast
  from run [OF n1(2) assms(5)] obtain r' where r':
    "fast_response_k_server n t' w = Inr (IntV (int_of_cell (fst (dp_cell cost t' n))), r')" by blast
  from run [OF n1(1)] obtain r0 where
    "fast_response_k_server n n w = Inr (IntV (int_of_cell (fst (dp_cell cost n n))), r0)" by blast
  then have r0: "fast_response_k_server n n w = Inr (IntV 0, r0)"
    using dp_cell_diag [where t = n and n = n and cost = cost, OF cd n1(1)] by simp
  have "int_of_cell (fst (dp_cell cost t' n)) \<le> int_of_cell (fst (dp_cell cost t n))"
    by (rule dp_cell_mono_servers [OF cm cd assms(3,4,5)])
  with r r' r0 show ?thesis by blast
qed

theorem more_servers_never_cost_more_witness:
  "\<exists>c c' r r' r0.
           fast_response_k_server 4 1 [0, 1, 1, 1, 1] = Inr (IntV c, r)
         \<and> fast_response_k_server 4 2 [0, 1, 1, 1, 1] = Inr (IntV c', r')
         \<and> c' \<le> c
         \<and> fast_response_k_server 4 4 [0, 1, 1, 1, 1] = Inr (IntV 0, r0)"
proof -
  have nn: "\<forall>p\<in>{1..4}. 0 \<le> [0, 1, 1, 1, 1 :: int] ! p"
    by (auto simp: nth_Cons split: nat.splits)
  show ?thesis
    using more_servers_never_cost_more [of 4 "[0, 1, 1, 1, 1]" 1 2, OF _ nn] by simp
qed

end
